theory Spec2Isabelle
  imports Main
begin

section \<open>Python strings\<close>

text \<open>
  A Python \<^verbatim>\<open>str\<close> is modelled as a \<^typ>\<open>string\<close>, each \<^typ>\<open>char\<close> read as one
  code point below 256.  The character classes are those of Python 3 on that range:
  \<^verbatim>\<open>str.isspace\<close> (which is also what \<^verbatim>\<open>\s\<close> matches in a \<^verbatim>\<open>str\<close> pattern and what
  \<^verbatim>\<open>str.strip()\<close> removes) holds for the code points 9 to 13, 28 to 32, 133 and 160;
  \<^verbatim>\<open>\d\<close> matches the decimal digits; \<^verbatim>\<open>.\<close> matches everything but the newline.
\<close>

definition newline :: char where
  "newline = CHR 0x0A"

definition isspace :: "char \<Rightarrow> bool" where
  "isspace c = (let n = (of_char c :: nat) in
     (9 \<le> n \<and> n \<le> 13) \<or> (28 \<le> n \<and> n \<le> 32) \<or> n = 133 \<or> n = 160)"

definition isdigit :: "char \<Rightarrow> bool" where
  "isdigit c = (let n = (of_char c :: nat) in 48 \<le> n \<and> n \<le> 57)"

definition isletter :: "char \<Rightarrow> bool" where
  "isletter c = (let n = (of_char c :: nat) in (65 \<le> n \<and> n \<le> 90) \<or> (97 \<le> n \<and> n \<le> 122))"

text \<open>The class \<^verbatim>\<open>[A-Za-z ]\<close> of the section title.\<close>

definition title_char :: "char \<Rightarrow> bool" where
  "title_char c = (isletter c \<or> c = CHR '' '')"

definition dot :: "char \<Rightarrow> bool" where
  "dot c = (c \<noteq> newline)"

definition lstrip_chars :: "(char \<Rightarrow> bool) \<Rightarrow> string \<Rightarrow> string" where
  "lstrip_chars p s = dropWhile p s"

definition rstrip_chars :: "(char \<Rightarrow> bool) \<Rightarrow> string \<Rightarrow> string" where
  "rstrip_chars p s = rev (dropWhile p (rev s))"

definition strip_chars :: "(char \<Rightarrow> bool) \<Rightarrow> string \<Rightarrow> string" where
  "strip_chars p s = rstrip_chars p (lstrip_chars p s)"

text \<open>\<^verbatim>\<open>s.strip()\<close>\<close>

definition strip :: "string \<Rightarrow> string" where
  "strip s = strip_chars isspace s"

text \<open>\<^verbatim>\<open>s.startswith(p)\<close>\<close>

fun startswith :: "string \<Rightarrow> string \<Rightarrow> bool" where
  "startswith s [] = True"
| "startswith [] (p # ps) = False"
| "startswith (x # xs) (p # ps) = (x = p \<and> startswith xs ps)"

text \<open>\<^verbatim>\<open>s.split(sep)\<close> for a separator of one character: always at least one piece.\<close>

fun split_on :: "char \<Rightarrow> string \<Rightarrow> string list" where
  "split_on c [] = [[]]"
| "split_on c (x # xs) =
     (if x = c then [] # split_on c xs
      else (case split_on c xs of [] \<Rightarrow> [[x]] | p # ps \<Rightarrow> (x # p) # ps))"

text \<open>
  \<^verbatim>\<open>s.splitlines()\<close>: the line boundaries below code point 256 are \<^verbatim>\<open>\n\<close>, \<^verbatim>\<open>\r\<close>,
  \<^verbatim>\<open>\r\n\<close>, \<^verbatim>\<open>\v\<close>, \<^verbatim>\<open>\f\<close>, \<^verbatim>\<open>\x1c\<close>, \<^verbatim>\<open>\x1d\<close>, \<^verbatim>\<open>\x1e\<close> and \<^verbatim>\<open>\x85\<close>; the boundary is
  dropped and a trailing boundary opens no further line.
\<close>

definition linebreak :: "char \<Rightarrow> bool" where
  "linebreak c = (let n = (of_char c :: nat) in
     (10 \<le> n \<and> n \<le> 13) \<or> (28 \<le> n \<and> n \<le> 30) \<or> n = 133)"

fun splitlines_from :: "string \<Rightarrow> string \<Rightarrow> string list" where
  "splitlines_from cur [] = (if cur = [] then [] else [cur])"
| "splitlines_from cur [x] = (if linebreak x then [cur] else [cur @ [x]])"
| "splitlines_from cur (x # y # ys) =
     (if x = CHR 0x0D \<and> y = newline then cur # splitlines_from [] ys
      else if linebreak x then cur # splitlines_from [] (y # ys)
      else splitlines_from (cur @ [x]) (y # ys))"

definition splitlines :: "string \<Rightarrow> string list" where
  "splitlines s = splitlines_from [] s"

section \<open>The regular expressions of the sources\<close>

text \<open>
  Every pattern of the sources is a sequence of single-character classes, each under a
  quantifier, possibly closed by \<^verbatim>\<open>$\<close>.  The matcher below is the backtracking matcher
  of Python's \<^verbatim>\<open>re\<close> on such sequences: a greedy quantifier tries the longest run
  first and gives characters back one at a time, a lazy one tries the shortest run first.
  It returns what each item of the sequence consumed, and the unread rest of the text.
\<close>

datatype quant = One | Opt | Star | Plus | PlusLazy

datatype item = Cls "char \<Rightarrow> bool" quant | Eos

fun greedy :: "(char \<Rightarrow> bool) \<Rightarrow> (string \<Rightarrow> string \<Rightarrow> 'a option) \<Rightarrow> string \<Rightarrow> string \<Rightarrow> 'a option" where
  "greedy c k acc [] = k acc []"
| "greedy c k acc (x # xs) =
     (if c x then (case greedy c k (acc @ [x]) xs of Some r \<Rightarrow> Some r | None \<Rightarrow> k acc (x # xs))
      else k acc (x # xs))"

fun lazy :: "(char \<Rightarrow> bool) \<Rightarrow> (string \<Rightarrow> string \<Rightarrow> 'a option) \<Rightarrow> string \<Rightarrow> string \<Rightarrow> 'a option" where
  "lazy c k acc [] = k acc []"
| "lazy c k acc (x # xs) =
     (case k acc (x # xs) of Some r \<Rightarrow> Some r
      | None \<Rightarrow> if c x then lazy c k (acc @ [x]) xs else None)"

primrec rmatch :: "item list \<Rightarrow> string \<Rightarrow> (string list \<times> string) option" where
  "rmatch [] s = Some ([], s)"
| "rmatch (it # its) s =
     (case it of
        Eos \<Rightarrow> (if s = [] \<or> s = [newline]
                then map_option (\<lambda>(gs, r). ([] # gs, r)) (rmatch its s) else None)
      | Cls c q \<Rightarrow>
         (let k = (\<lambda>acc r. map_option (\<lambda>(gs, r'). (acc # gs, r')) (rmatch its r)) in
          case q of
            One \<Rightarrow> (case s of [] \<Rightarrow> None | x # xs \<Rightarrow> if c x then k [x] xs else None)
          | Opt \<Rightarrow> (case s of [] \<Rightarrow> k [] []
                    | x # xs \<Rightarrow> if c x then (case k [x] xs of Some r \<Rightarrow> Some r | None \<Rightarrow> k [] s)
                               else k [] s)
          | Star \<Rightarrow> greedy c k [] s
          | Plus \<Rightarrow> (case s of [] \<Rightarrow> None | x # xs \<Rightarrow> if c x then greedy c k [x] xs else None)
          | PlusLazy \<Rightarrow> (case s of [] \<Rightarrow> None | x # xs \<Rightarrow> if c x then lazy c k [x] xs else None)))"

text \<open>A literal text is the sequence of its characters, each matched once.\<close>

definition lit :: "string \<Rightarrow> item list" where
  "lit s = map (\<lambda>c. Cls (\<lambda>x. x = c) One) s"

text \<open>
  \<^verbatim>\<open>SECTION\s*:?\s*\d+\.\<close>, the body of the first pass (its lookbehind \<^verbatim>\<open>(?<!\n)\<close> is
  checked by \<open>marker_match\<close>).
\<close>

definition marker_items :: "item list" where
  "marker_items = lit ''SECTION'' @
     [Cls isspace Star, Cls (\<lambda>x. x = CHR '':'') Opt, Cls isspace Star,
      Cls isdigit Plus, Cls (\<lambda>x. x = CHR ''.'') One]"

text \<open>\<^verbatim>\<open>SECTION\s*:?\s*\n*\s*(\d+\.\s+[A-Za-z ]+)\<close>: group 1 is what the last four items consumed.\<close>

definition variant_items :: "item list" where
  "variant_items = lit ''SECTION'' @
     [Cls isspace Star, Cls (\<lambda>x. x = CHR '':'') Opt, Cls isspace Star,
      Cls (\<lambda>x. x = newline) Star, Cls isspace Star,
      Cls isdigit Plus, Cls (\<lambda>x. x = CHR ''.'') One, Cls isspace Plus, Cls title_char Plus]"

text \<open>\<^verbatim>\<open>(SECTION:\s*\d+\.\s+[A-Za-z ]+)\<close>: group 1 is the whole match.\<close>

definition header_items :: "item list" where
  "header_items = lit ''SECTION:'' @
     [Cls isspace Star, Cls isdigit Plus, Cls (\<lambda>x. x = CHR ''.'') One,
      Cls isspace Plus, Cls title_char Plus]"

text \<open>
  A match at the current position, given the character before it (\<open>None\<close> at the start
  of the text): the text that replaces the match, the matched text and the rest.
\<close>

type_synonym matcher = "char option \<Rightarrow> string \<Rightarrow> (string \<times> string \<times> string) option"

definition marker_match :: matcher where
  "marker_match prev s =
     (if prev = Some newline then None
      else map_option (\<lambda>(gs, r). (newline # concat gs, concat gs, r)) (rmatch marker_items s))"

definition variant_match :: matcher where
  "variant_match prev s =
     map_option (\<lambda>(gs, r). (''SECTION: '' @ concat (drop 12 gs), concat gs, r))
       (rmatch variant_items s)"

definition header_match :: matcher where
  "header_match prev s =
     map_option (\<lambda>(gs, r). (concat gs @ [newline], concat gs, r)) (rmatch header_items s)"

text \<open>
  \<^verbatim>\<open>re.sub\<close>: scan from the left; where the pattern matches, write the replacement and go
  on behind the match; elsewhere copy one character.  None of the three patterns matches
  the empty text (\<open>matchers_consume\<close> below); the test on the matched text and on the
  length of the rest only makes the recursion end visibly.
\<close>

function re_sub :: "matcher \<Rightarrow> char option \<Rightarrow> string \<Rightarrow> string" where
  "re_sub m prev [] = []"
| "re_sub m prev (x # xs) =
     (case m prev (x # xs) of
        None \<Rightarrow> x # re_sub m (Some x) xs
      | Some (repl, matched, r) \<Rightarrow>
          if matched \<noteq> [] \<and> length r \<le> length xs then repl @ re_sub m (Some (last matched)) r
          else x # re_sub m (Some x) xs)"
  by pat_completeness auto
termination
  by (relation "measure (\<lambda>(m, prev, s). length s)") auto

text \<open>
  \<^verbatim>\<open>re.split\<close> on a pattern that is one capturing group: the text before the first match,
  then each match followed by the text up to the next one.
\<close>

function re_split :: "matcher \<Rightarrow> string \<Rightarrow> string \<Rightarrow> string list" where
  "re_split m cur [] = [cur]"
| "re_split m cur (x # xs) =
     (case m None (x # xs) of
        None \<Rightarrow> re_split m (cur @ [x]) xs
      | Some (repl, matched, r) \<Rightarrow>
          if matched \<noteq> [] \<and> length r \<le> length xs then cur # matched # re_split m [] r
          else re_split m (cur @ [x]) xs)"
  by pat_completeness auto
termination
  by (relation "measure (\<lambda>(m, cur, s). length s)") auto

section \<open>The Normalizer: the three rewrite passes of \<open>split_sections\<close>\<close>

definition pass1 :: "string \<Rightarrow> string" where
  "pass1 document = re_sub marker_match None document"

definition pass2 :: "string \<Rightarrow> string" where
  "pass2 document = re_sub variant_match None document"

definition pass3 :: "string \<Rightarrow> string" where
  "pass3 document = re_sub header_match None document"

definition normalize :: "string \<Rightarrow> string" where
  "normalize document = pass3 (pass2 (pass1 document))"

section \<open>SectionSplitter: \<open>split_sections\<close>\<close>

datatype error = JSONDecodeError | ValueError | AttributeError | TypeError | KeyError | IndexError

text \<open>
  The Python values a payload can be.  A \<^verbatim>\<open>dict\<close> is the list of its items in insertion
  order; \<open>PyOther\<close> stands for an object of any further type (a float, bytes, ...).
\<close>

datatype pyvalue =
    PyStr string
  | PyDict "(string \<times> pyvalue) list"
  | PyList "pyvalue list"
  | PyInt int
  | PyBool bool
  | PyNone
  | PyOther

text \<open>The result \<^verbatim>\<open>Dict[str, str]\<close>, in insertion order.\<close>

type_synonym section_map = "(string \<times> string) list"

text \<open>\<^verbatim>\<open>key in result\<close>\<close>

definition dict_contains :: "section_map \<Rightarrow> string \<Rightarrow> bool" where
  "dict_contains result k = (map_of result k \<noteq> None)"

text \<open>\<^verbatim>\<open>result[key] = value\<close>: a key already there keeps its place, a new one goes last.\<close>

fun dict_set :: "section_map \<Rightarrow> string \<Rightarrow> string \<Rightarrow> section_map" where
  "dict_set [] k v = [(k, v)]"
| "dict_set ((k', v') # result) k v =
     (if k' = k then (k', v) # result else (k', v') # dict_set result k v)"

text \<open>\<^verbatim>\<open>result[key] += text\<close>: reads the entry first, so a missing key raises.\<close>

fun dict_iadd :: "section_map \<Rightarrow> string \<Rightarrow> string \<Rightarrow> error + section_map" where
  "dict_iadd [] k v = Inl KeyError"
| "dict_iadd ((k', v') # result) k v =
     (if k' = k then Inr ((k', v' @ v) # result)
      else (case dict_iadd result k v of Inl e \<Rightarrow> Inl e | Inr result' \<Rightarrow> Inr ((k', v') # result')))"

text \<open>
  Lines 48 to 53 of \<^verbatim>\<open>generator1.py\<close> (the same in \<^verbatim>\<open>generator3.py\<close>).  \<^verbatim>\<open>json.loads\<close> is
  the standard library's; it is the parameter \<open>json_loads\<close>, \<open>None\<close> where it raises
  \<^verbatim>\<open>JSONDecodeError\<close>.
\<close>

definition load_payload :: "(string \<Rightarrow> pyvalue option) \<Rightarrow> pyvalue \<Rightarrow> error + pyvalue" where
  "load_payload json_loads payload =
     (case payload of
        PyStr s \<Rightarrow> (case json_loads s of None \<Rightarrow> Inl JSONDecodeError | Some data \<Rightarrow> Inr data)
      | PyDict d \<Rightarrow> Inr payload
      | _ \<Rightarrow> Inl ValueError)"

text \<open>\<^verbatim>\<open>data.get("REQUIREMENT", "")\<close>: only a \<^verbatim>\<open>dict\<close> has the method.\<close>

definition get_requirement :: "pyvalue \<Rightarrow> error + pyvalue" where
  "get_requirement data =
     (case data of
        PyDict d \<Rightarrow> (case map_of d ''REQUIREMENT'' of None \<Rightarrow> Inr (PyStr []) | Some v \<Rightarrow> Inr v)
      | _ \<Rightarrow> Inl AttributeError)"

text \<open>The loop of \<^verbatim>\<open>generator1.py\<close>, lines 77 to 92.\<close>

fun split_loop :: "string list \<Rightarrow> string option \<Rightarrow> section_map \<Rightarrow> error + section_map" where
  "split_loop [] current_section result = Inr result"
| "split_loop (part0 # sections) current_section result =
     (let part = strip part0 in
      if part = [] then split_loop sections current_section result
      else if startswith part ''SECTION:'' then
        (case header_match None part of
           None \<Rightarrow> split_loop sections current_section result
         | Some (repl, matched, r) \<Rightarrow>
             split_loop sections (Some (strip matched))
               (if dict_contains result (strip matched) then result
                else dict_set result (strip matched) []))
      else
        (case current_section of
           None \<Rightarrow> split_loop sections current_section result
         | Some cs \<Rightarrow>
             if cs = [] then split_loop sections current_section result
             else (case dict_iadd result cs (strip part @ [newline]) of
                     Inl e \<Rightarrow> Inl e
                   | Inr result' \<Rightarrow> split_loop sections current_section result')))"

text \<open>The loop of \<^verbatim>\<open>generator3.py\<close>, lines 60 to 74 (and of \<^verbatim>\<open>generator4.py\<close>).\<close>

fun split_loop3 :: "string list \<Rightarrow> string option \<Rightarrow> section_map \<Rightarrow> error + section_map" where
  "split_loop3 [] current_section result = Inr result"
| "split_loop3 (part0 # sections) current_section result =
     (let part = strip part0 in
      if part = [] then split_loop3 sections current_section result
      else if startswith part ''SECTION:'' then
        split_loop3 sections (Some part) (dict_set result part [])
      else
        (case current_section of
           None \<Rightarrow> split_loop3 sections current_section result
         | Some cs \<Rightarrow>
             if cs = [] then split_loop3 sections current_section result
             else (case dict_iadd result cs (strip part @ [newline]) of
                     Inl e \<Rightarrow> Inl e
                   | Inr result' \<Rightarrow> split_loop3 sections current_section result')))"

text \<open>
  From the requirement text on: the Normalizer, \<^verbatim>\<open>re.split\<close> and the loop.  \<^verbatim>\<open>re.sub\<close>
  raises \<^verbatim>\<open>TypeError\<close> on anything but a \<^verbatim>\<open>str\<close>.
\<close>

definition split_document :: "pyvalue \<Rightarrow> error + section_map" where
  "split_document document =
     (case document of
        PyStr text \<Rightarrow> split_loop (re_split header_match [] (normalize text)) None []
      | _ \<Rightarrow> Inl TypeError)"

definition split_document3 :: "pyvalue \<Rightarrow> error + section_map" where
  "split_document3 document =
     (case document of
        PyStr text \<Rightarrow> split_loop3 (re_split header_match [] (normalize text)) None []
      | _ \<Rightarrow> Inl TypeError)"

text \<open>\<^verbatim>\<open>split_sections\<close> of \<^verbatim>\<open>generator1.py\<close>.\<close>

definition split_sections :: "(string \<Rightarrow> pyvalue option) \<Rightarrow> pyvalue \<Rightarrow> error + section_map" where
  "split_sections json_loads payload =
     (case load_payload json_loads payload of
        Inl e \<Rightarrow> Inl e
      | Inr data \<Rightarrow>
          (case get_requirement data of
             Inl e \<Rightarrow> Inl e
           | Inr document \<Rightarrow> split_document document))"

text \<open>\<^verbatim>\<open>split_sections\<close> of \<^verbatim>\<open>generator3.py\<close>.\<close>

definition split_sections3 :: "(string \<Rightarrow> pyvalue option) \<Rightarrow> pyvalue \<Rightarrow> error + section_map" where
  "split_sections3 json_loads payload =
     (case load_payload json_loads payload of
        Inl e \<Rightarrow> Inl e
      | Inr data \<Rightarrow>
          (case get_requirement data of
             Inl e \<Rightarrow> Inl e
           | Inr document \<Rightarrow> split_document3 document))"

section \<open>The Markdown document path: \<open>generate_doc\<close>\<close>

text \<open>
  The document under construction is the list of the calls made on it, in order: the title
  (\<^verbatim>\<open>doc.add_heading(title, level=1)\<close>) and one block for each call of \<^verbatim>\<open>add_heading\<close>,
  \<^verbatim>\<open>add_subheading\<close>, \<^verbatim>\<open>add_paragraph\<close>, \<^verbatim>\<open>add_code_block\<close> and
  \<^verbatim>\<open>add_markdown_table\<close>, with the text it was given.  A table is the grid of its cell
  texts, header row first.
\<close>

datatype block =
    Title string
  | Heading string
  | Subheading string
  | Paragraph string
  | CodeBlock "string list"
  | Table "string list list"

text \<open>\<^verbatim>\<open>^(\d+)\.\s+(.+)$\<close>, with its groups 1 and 2.\<close>

definition section_header_pattern :: "string \<Rightarrow> (string \<times> string) option" where
  "section_header_pattern line =
     (case rmatch [Cls isdigit Plus, Cls (\<lambda>x. x = CHR ''.'') One, Cls isspace Plus,
                   Cls dot Plus, Eos] line of
        Some ([g1, d, w, g2, e], r) \<Rightarrow> Some (g1, g2)
      | _ \<Rightarrow> None)"

text \<open>\<^verbatim>\<open>^(\d+)\.(\d+)\s+(.+)$\<close>, with its groups 1, 2 and 3.\<close>

definition subheading_pattern :: "string \<Rightarrow> (string \<times> string \<times> string) option" where
  "subheading_pattern line =
     (case rmatch [Cls isdigit Plus, Cls (\<lambda>x. x = CHR ''.'') One, Cls isdigit Plus,
                   Cls isspace Plus, Cls dot Plus, Eos] line of
        Some ([g1, d, g2, w, g3, e], r) \<Rightarrow> Some (g1, g2, g3)
      | _ \<Rightarrow> None)"

text \<open>\<^verbatim>\<open>^\|(.+?)\|$\<close>; only whether it matches is used.\<close>

definition table_line_pattern :: "string \<Rightarrow> bool" where
  "table_line_pattern line =
     (rmatch [Cls (\<lambda>x. x = CHR ''|'') One, Cls dot PlusLazy, Cls (\<lambda>x. x = CHR ''|'') One,
              Eos] line \<noteq> None)"

text \<open>
  \<^verbatim>\<open>for i, cell in enumerate(row): row_cells[i].text = cell\<close>.  The cells of a row of a
  python-docx table are a sequence as long as the table has columns, so an index beyond
  it raises \<^verbatim>\<open>IndexError\<close>.
\<close>

fun set_cells :: "string list \<Rightarrow> nat \<Rightarrow> string list \<Rightarrow> error + string list" where
  "set_cells row_cells i [] = Inr row_cells"
| "set_cells row_cells i (cell # cells) =
     (if i < length row_cells then set_cells (row_cells[i := cell]) (Suc i) cells
      else Inl IndexError)"

text \<open>\<^verbatim>\<open>for row in rows: row_cells = table.add_row().cells; ...\<close>\<close>

fun add_rows :: "nat \<Rightarrow> string list list \<Rightarrow> string list list \<Rightarrow> error + string list list" where
  "add_rows cols grid [] = Inr grid"
| "add_rows cols grid (row # rows) =
     (case set_cells (replicate cols []) 0 row of
        Inl e \<Rightarrow> Inl e
      | Inr row_cells \<Rightarrow> add_rows cols (grid @ [row_cells]) rows)"

definition header_cells :: "string \<Rightarrow> string list" where
  "header_cells line =
     map (strip_chars (\<lambda>c. c = CHR '' '' \<or> c = CHR ''*''))
       (filter (\<lambda>cell. strip cell \<noteq> []) (split_on (CHR ''|'') line))"

definition row_cells :: "string \<Rightarrow> string list" where
  "row_cells line = map strip (filter (\<lambda>cell. strip cell \<noteq> []) (split_on (CHR ''|'') line))"

text \<open>\<^verbatim>\<open>add_markdown_table\<close>: the table it adds to the document, or the exception it raises.\<close>

definition add_markdown_table :: "string list \<Rightarrow> error + block" where
  "add_markdown_table lines =
     (case lines of
        [] \<Rightarrow> Inl IndexError
      | line0 # ls \<Rightarrow>
          (let headers = header_cells line0;
               rows = map row_cells (drop 2 lines)
           in case set_cells (replicate (length headers) []) 0 headers of
                Inl e \<Rightarrow> Inl e
              | Inr hdr_cells \<Rightarrow>
                  (case add_rows (length headers) [hdr_cells] rows of
                     Inl e \<Rightarrow> Inl e
                   | Inr grid \<Rightarrow> Inr (Table grid))))"

text \<open>The local variables of \<^verbatim>\<open>generate_doc\<close>.\<close>

record parser =
  doc :: "block list"
  current_section :: string
  current_content :: "string list"
  seen_sections :: "string set"
  in_code_block :: bool
  code_block_lines :: "string list"
  in_table :: bool
  table_lines :: "string list"
  known_main_sections :: "string set"

definition init :: "string \<Rightarrow> parser" where
  "init title = \<lparr> doc = [Title title], current_section = [], current_content = [],
     seen_sections = {}, in_code_block = False, code_block_lines = [], in_table = False,
     table_lines = [], known_main_sections = {} \<rparr>"

definition flush_section :: "parser \<Rightarrow> parser" where
  "flush_section s =
     (let s1 = (if current_section s \<noteq> [] \<and> current_section s \<notin> seen_sections s
                then s\<lparr> doc := doc s @ [Heading (current_section s)],
                        seen_sections := insert (current_section s) (seen_sections s) \<rparr>
                else s)
      in s1\<lparr> doc := doc s1 @ map Paragraph (current_content s1), current_content := [] \<rparr>)"

text \<open>
  The body of the loop over the lines.  (The test \<^verbatim>\<open>isinstance(line, bytes)\<close> is never
  true of a line of a \<^verbatim>\<open>str\<close>.)
\<close>

definition step :: "parser \<Rightarrow> string \<Rightarrow> error + parser" where
  "step s line0 =
     (let line = strip line0 in
      if line = [] then Inr s
      else if startswith line ''```'' then
        (if in_code_block s
         then Inr (s\<lparr> in_code_block := False,
                       doc := doc s @ [CodeBlock (code_block_lines s)],
                       code_block_lines := [] \<rparr>)
         else Inr (s\<lparr> in_code_block := True \<rparr>))
      else if in_code_block s then Inr (s\<lparr> code_block_lines := code_block_lines s @ [line] \<rparr>)
      else if table_line_pattern line then
        Inr (s\<lparr> table_lines := table_lines s @ [line], in_table := True \<rparr>)
      else if in_table s then
        (let s1 = flush_section s in
         case add_markdown_table (table_lines s1) of
           Inl e \<Rightarrow> Inl e
         | Inr t \<Rightarrow> Inr (s1\<lparr> doc := doc s1 @ [t], table_lines := [], in_table := False \<rparr>))
      else
        (case section_header_pattern line of
           Some (g1, g2) \<Rightarrow>
             (let s1 = flush_section s in
              Inr (s1\<lparr> current_section := g1 @ ''. '' @ g2,
                       known_main_sections := insert g1 (known_main_sections s1) \<rparr>))
         | None \<Rightarrow>
             (case subheading_pattern line of
                Some (main_number, sub_number, sub_title) \<Rightarrow>
                  (let s1 = flush_section s;
                       main_title = main_number @ ''. (Auto) Section'';
                       s2 = (if main_number \<notin> known_main_sections s1
                             then (if main_title \<notin> seen_sections s1
                                   then s1\<lparr> doc := doc s1 @ [Heading main_title],
                                            seen_sections := insert main_title (seen_sections s1),
                                            known_main_sections :=
                                              insert main_number (known_main_sections s1) \<rparr>
                                   else s1)
                             else s1)
                   in Inr (s2\<lparr> doc := doc s2 @
                             [Subheading (main_number @ ''.'' @ sub_number @ '' '' @ sub_title)] \<rparr>))
              | None \<Rightarrow> Inr (s\<lparr> current_content := current_content s @ [line] \<rparr>))))"

text \<open>\<^verbatim>\<open>for line in lines: ...\<close>; an exception ends the loop.\<close>

fun process :: "parser \<Rightarrow> string list \<Rightarrow> error + parser" where
  "process s [] = Inr s"
| "process s (line # lines) =
     (case step s line of Inl e \<Rightarrow> Inl e | Inr s' \<Rightarrow> process s' lines)"

text \<open>
  \<^verbatim>\<open>generate_doc\<close>: the document that is saved, or the exception raised.  (Writing the
  document to \<^verbatim>\<open>file_obj\<close> is python-docx's.)
\<close>

definition generate_doc :: "string \<Rightarrow> string \<Rightarrow> error + block list" where
  "generate_doc ts_text title =
     (case process (init title) (splitlines ts_text) of
        Inl e \<Rightarrow> Inl e
      | Inr s \<Rightarrow> Inr (doc (flush_section s)))"

section \<open>Notions used in the statements\<close>

text \<open>\<^verbatim>\<open>p in s\<close>: the text \<open>p\<close> occurs in \<open>s\<close>.\<close>

fun occurs :: "string \<Rightarrow> string \<Rightarrow> bool" where
  "occurs p [] = (p = [])"
| "occurs p (x # xs) = (startswith (x # xs) p \<or> occurs p xs)"

text \<open>What one item of a pattern can consume.\<close>

fun fits :: "item \<Rightarrow> string \<Rightarrow> bool" where
  "fits (Cls c One) g = (case g of [x] \<Rightarrow> c x | _ \<Rightarrow> False)"
| "fits (Cls c Opt) g = (case g of [] \<Rightarrow> True | [x] \<Rightarrow> c x | _ \<Rightarrow> False)"
| "fits (Cls c Star) g = list_all c g"
| "fits (Cls c Plus) g = (g \<noteq> [] \<and> list_all c g)"
| "fits (Cls c PlusLazy) g = (g \<noteq> [] \<and> list_all c g)"
| "fits Eos g = (g = [])"

text \<open>
  The marker \<^verbatim>\<open>SECTION\s*:?\s*\d+\.\<close> of the first pass matches somewhere in the text
  (whatever precedes it).
\<close>

fun marker_occurs :: "string \<Rightarrow> bool" where
  "marker_occurs [] = False"
| "marker_occurs (x # xs) = (rmatch marker_items (x # xs) \<noteq> None \<or> marker_occurs xs)"

text \<open>The payload is a \<^verbatim>\<open>dict\<close>, or a \<^verbatim>\<open>str\<close> that \<^verbatim>\<open>json.loads\<close> turns into one.\<close>

definition json_object_or_mapping :: "(string \<Rightarrow> pyvalue option) \<Rightarrow> pyvalue \<Rightarrow> bool" where
  "json_object_or_mapping json_loads payload =
     (case payload of
        PyStr s \<Rightarrow> (case json_loads s of Some (PyDict d) \<Rightarrow> True | _ \<Rightarrow> False)
      | PyDict d \<Rightarrow> True
      | _ \<Rightarrow> False)"

text \<open>
  The exceptions with which lines 48 to 55 of \<^verbatim>\<open>generator1.py\<close> reject a payload:
  \<^verbatim>\<open>JSONDecodeError\<close> from \<^verbatim>\<open>json.loads\<close>, the \<^verbatim>\<open>ValueError\<close> raised for a payload that is
  neither \<^verbatim>\<open>str\<close> nor \<^verbatim>\<open>dict\<close>, and \<^verbatim>\<open>AttributeError\<close> from \<^verbatim>\<open>data.get\<close> on decoded JSON
  that is not an object.
\<close>

definition invalid_payload :: "error \<Rightarrow> bool" where
  "invalid_payload e = (e = JSONDecodeError \<or> e = ValueError \<or> e = AttributeError)"

text \<open>
  A line that reaches \<^verbatim>\<open>current_content.append(line)\<close> when the parser is neither in a
  code block nor in a table: not blank, no fence, no table row, no heading, no subheading.
\<close>

definition content_line :: "string \<Rightarrow> bool" where
  "content_line line0 =
     (let line = strip line0 in
      line \<noteq> [] \<and> \<not> startswith line ''```'' \<and> \<not> table_line_pattern line \<and>
      section_header_pattern line = None \<and> subheading_pattern line = None)"

text \<open>The title of the placeholder heading for a main number.\<close>

definition auto_title :: "string \<Rightarrow> string" where
  "auto_title main_number = main_number @ ''. (Auto) Section''"

text \<open>
  A section map \<open>r\<close> extends \<open>result\<close>: the keys of \<open>result\<close> come first and in the same
  order, and the body of each entry of \<open>result\<close> is the beginning of its body in \<open>r\<close>.
\<close>

definition extends :: "section_map \<Rightarrow> section_map \<Rightarrow> bool" where
  "extends result r =
     ((\<exists>ks. map fst r = map fst result @ ks) \<and>
      (\<forall>k v. (k, v) \<in> set result \<longrightarrow> (\<exists>u. (k, v @ u) \<in> set r)))"

text \<open>
  What holds of the parser at every line: each heading in the document is recorded as
  seen; a placeholder title that is seen has its main number known; and the current
  section, once set, is a known main number followed by a dot, a space and the title.
\<close>

definition parser_inv :: "parser \<Rightarrow> bool" where
  "parser_inv s =
     ((\<forall>h. Heading h \<in> set (doc s) \<longrightarrow> h \<in> seen_sections s) \<and>
      (\<forall>n. list_all isdigit n \<and> auto_title n \<in> seen_sections s \<longrightarrow> n \<in> known_main_sections s) \<and>
      (current_section s = [] \<or>
       (\<exists>g1 g2. current_section s = g1 @ ''. '' @ g2 \<and> list_all isdigit g1 \<and>
          g1 \<in> known_main_sections s)))"

section \<open>What a match tells about the text\<close>

lemma greedy_sound:
  "greedy c k acc s = Some r \<Longrightarrow>
   \<exists>pre post. s = pre @ post \<and> list_all c pre \<and> k (acc @ pre) post = Some r"
proof (induction s arbitrary: acc)
  case Nil
  then show ?case by simp
next
  case (Cons x xs)
  show ?case
  proof (cases "c x \<and> greedy c k (acc @ [x]) xs \<noteq> None")
    case True
    then have "greedy c k (acc @ [x]) xs = Some r" using Cons.prems by auto
    from Cons.IH [OF this] obtain pre post where
      "xs = pre @ post" "list_all c pre" "k ((acc @ [x]) @ pre) post = Some r" by blast
    then have "x # xs = (x # pre) @ post \<and> list_all c (x # pre) \<and> k (acc @ x # pre) post = Some r"
      using True by simp
    then show ?thesis by blast
  next
    case False
    then have "k (acc @ []) (x # xs) = Some r" using Cons.prems by (auto split: option.splits)
    then have "x # xs = [] @ (x # xs) \<and> list_all c [] \<and> k (acc @ []) (x # xs) = Some r" by simp
    then show ?thesis by blast
  qed
qed

lemma not_digit_dot: "\<not> isdigit (CHR ''.'')"
  by (simp add: isdigit_def)

lemma digit_not_space: "isdigit c \<Longrightarrow> \<not> isspace c"
  by (auto simp: isdigit_def isspace_def Let_def)

lemma digits_prefix_unique:
  "list_all isdigit a \<Longrightarrow> list_all isdigit b \<Longrightarrow> a @ CHR ''.'' # r = b @ CHR ''.'' # r' \<Longrightarrow>
   a = b \<and> r = r'"
proof (induction a arbitrary: b)
  case Nil
  then show ?case using not_digit_dot by (cases b) auto
next
  case (Cons x a)
  then show ?case using not_digit_dot by (cases b) auto
qed

lemma header_shape:
  assumes "section_header_pattern line = Some (g1, g2)"
  shows "g1 \<noteq> [] \<and> list_all isdigit g1 \<and> (\<exists>y rest. line = g1 @ CHR ''.'' # y # rest \<and> isspace y)"
proof -
  let ?its = "[Cls (\<lambda>x. x = CHR ''.'') One, Cls isspace Plus, Cls dot Plus, Eos]"
  let ?k = "\<lambda>acc r. map_option (\<lambda>(gs, r'). (acc # gs, r')) (rmatch ?its r)"
  from assms obtain gs r where m: "rmatch (Cls isdigit Plus # ?its) line = Some (gs, r)"
    by (auto simp: section_header_pattern_def split: option.splits)
  then obtain x xs where l: "line = x # xs" "isdigit x" and g: "greedy isdigit ?k [x] xs = Some (gs, r)"
    by (cases line) (auto simp: Let_def split: if_splits)
  from greedy_sound [OF g] obtain pre post where
    p: "xs = pre @ post" "list_all isdigit pre" "?k ([x] @ pre) post = Some (gs, r)" by blast
  then obtain gs' where gs: "gs = (x # pre) # gs'" and m2: "rmatch ?its post = Some (gs', r)"
    by auto
  from m2 obtain y rest where "post = CHR ''.'' # y # rest" "isspace y"
    by (cases post; cases "tl post") (auto simp: Let_def split: if_splits)
  moreover have "g1 = x # pre"
    using assms m gs by (auto simp: section_header_pattern_def split: list.splits)
  ultimately show ?thesis using l p by auto
qed

lemma sub_shape:
  assumes "subheading_pattern line = Some (n, m, t)"
  shows "n \<noteq> [] \<and> list_all isdigit n \<and> (\<exists>d rest. line = n @ CHR ''.'' # d # rest \<and> isdigit d)"
proof -
  let ?its = "[Cls (\<lambda>x. x = CHR ''.'') One, Cls isdigit Plus, Cls isspace Plus, Cls dot Plus, Eos]"
  let ?k = "\<lambda>acc r. map_option (\<lambda>(gs, r'). (acc # gs, r')) (rmatch ?its r)"
  from assms obtain gs r where m: "rmatch (Cls isdigit Plus # ?its) line = Some (gs, r)"
    by (auto simp: subheading_pattern_def split: option.splits)
  then obtain x xs where l: "line = x # xs" "isdigit x" and g: "greedy isdigit ?k [x] xs = Some (gs, r)"
    by (cases line) (auto simp: Let_def split: if_splits)
  from greedy_sound [OF g] obtain pre post where
    p: "xs = pre @ post" "list_all isdigit pre" "?k ([x] @ pre) post = Some (gs, r)" by blast
  then obtain gs' where gs: "gs = (x # pre) # gs'" and m2: "rmatch ?its post = Some (gs', r)"
    by auto
  from m2 obtain d rest where "post = CHR ''.'' # d # rest" "isdigit d"
    by (cases post; cases "tl post") (auto simp: Let_def split: if_splits)
  moreover have "n = x # pre"
    using assms m gs by (auto simp: subheading_pattern_def split: list.splits)
  ultimately show ?thesis using l p by auto
qed

lemma sub_not_header:
  assumes "subheading_pattern line = Some (n, m, t)"
  shows "section_header_pattern line = None"
proof (rule ccontr)
  assume "section_header_pattern line \<noteq> None"
  then obtain g1 g2 where h: "section_header_pattern line = Some (g1, g2)" by auto
  from header_shape [OF h] obtain y rest where
    1: "list_all isdigit g1" "line = g1 @ CHR ''.'' # y # rest" "isspace y" by blast
  from sub_shape [OF assms] obtain d rest' where
    2: "list_all isdigit n" "line = n @ CHR ''.'' # d # rest'" "isdigit d" by blast
  have "g1 @ CHR ''.'' # (y # rest) = n @ CHR ''.'' # (d # rest')" using 1(2) 2(2) by simp
  from digits_prefix_unique [OF 1(1) 2(1) this] have "y = d" by simp
  then show False using 1(3) 2(3) digit_not_space by auto
qed

lemma sub_default:
  assumes "subheading_pattern line = Some (n, m, t)"
  shows "line \<noteq> [] \<and> \<not> startswith line ''```'' \<and> \<not> table_line_pattern line"
proof -
  from sub_shape [OF assms] obtain x xs where "line = x # xs" "isdigit x"
    by (cases n) auto
  then show ?thesis
    by (auto simp: table_line_pattern_def isdigit_def Let_def)
qed

lemma rmatch_lit:
  "\<not> startswith s p \<Longrightarrow> rmatch (lit p @ its) s = None"
proof (induction p arbitrary: s)
  case Nil
  then show ?case by simp
next
  case (Cons c p)
  then show ?case by (cases s) (auto simp: lit_def)
qed

lemma lazy_sound:
  "lazy c k acc s = Some r \<Longrightarrow>
   \<exists>pre post. s = pre @ post \<and> list_all c pre \<and> k (acc @ pre) post = Some r"
proof (induction s arbitrary: acc)
  case Nil
  then show ?case by simp
next
  case (Cons x xs)
  show ?case
  proof (cases "k acc (x # xs)")
    case (Some a)
    then have "k (acc @ []) (x # xs) = Some r" using Cons.prems by simp
    then have "x # xs = [] @ (x # xs) \<and> list_all c [] \<and> k (acc @ []) (x # xs) = Some r" by simp
    then show ?thesis by blast
  next
    case None
    then have cx: "c x" and l: "lazy c k (acc @ [x]) xs = Some r"
      using Cons.prems by (auto split: if_splits)
    from Cons.IH [OF l] obtain pre post where
      "xs = pre @ post" "list_all c pre" "k ((acc @ [x]) @ pre) post = Some r" by blast
    then have "x # xs = (x # pre) @ post \<and> list_all c (x # pre) \<and> k (acc @ x # pre) post = Some r"
      using cx by simp
    then show ?thesis by blast
  qed
qed


lemma rmatch_sound:
  "rmatch its s = Some (gs, r) \<Longrightarrow> s = concat gs @ r \<and> list_all2 fits its gs"
proof (induction its arbitrary: s gs r)
  case Nil
  then show ?case by simp
next
  case (Cons it its)
  show ?case
  proof (cases it)
    case Eos
    then obtain gs' where "gs = [] # gs'" "rmatch its s = Some (gs', r)"
      using Cons.prems by (auto split: if_splits)
    then show ?thesis using Cons.IH Eos by auto
  next
    case (Cls c q)
    let ?k = "\<lambda>acc r. map_option (\<lambda>(gs, r'). (acc # gs, r')) (rmatch its r)"
    have step: "s = g @ post \<Longrightarrow> ?k g post = Some (gs, r) \<Longrightarrow> fits it g \<Longrightarrow>
        s = concat gs @ r \<and> list_all2 fits (it # its) gs" for g post
    proof -
      assume a: "s = g @ post" "?k g post = Some (gs, r)" "fits it g"
      then obtain gs' where "gs = g # gs'" "rmatch its post = Some (gs', r)" by auto
      then show ?thesis using Cons.IH a by auto
    qed
    show ?thesis
    proof (cases q)
      case One
      then obtain x xs where "s = x # xs" "c x" "?k [x] xs = Some (gs, r)"
        using Cons.prems Cls by (cases s) (auto simp: Let_def split: if_splits)
      then show ?thesis using step [of "[x]" xs] Cls One by simp
    next
      case Opt
      show ?thesis
      proof (cases s)
        case Nil
        then have "?k [] [] = Some (gs, r)" using Cons.prems Cls Opt by (simp add: Let_def)
        then show ?thesis using step [of "[]" "[]"] Cls Opt Nil by simp
      next
        case (Cons x xs)
        show ?thesis
        proof (cases "c x \<and> ?k [x] xs \<noteq> None")
          case True
          then have "?k [x] xs = Some (gs, r)"
            using Cons.prems Cls Opt Cons by (auto simp: Let_def)
          then show ?thesis using step [of "[x]" xs] Cls Opt Cons True by simp
        next
          case False
          then have "?k [] s = Some (gs, r)"
            using Cons.prems Cls Opt Cons by (auto simp: Let_def split: option.splits if_splits)
          then show ?thesis using step [of "[]" s] Cls Opt by simp
        qed
      qed
    next
      case Star
      then have "greedy c ?k [] s = Some (gs, r)" using Cons.prems Cls by (simp add: Let_def)
      from greedy_sound [OF this] obtain pre post where
        "s = pre @ post" "list_all c pre" "?k ([] @ pre) post = Some (gs, r)" by blast
      then show ?thesis using step [of pre post] Cls Star by simp
    next
      case Plus
      then obtain x xs where x: "s = x # xs" "c x" "greedy c ?k [x] xs = Some (gs, r)"
        using Cons.prems Cls by (cases s) (auto simp: Let_def split: if_splits)
      from greedy_sound [OF x(3)] obtain pre post where
        "xs = pre @ post" "list_all c pre" "?k ([x] @ pre) post = Some (gs, r)" by blast
      then show ?thesis using step [of "x # pre" post] Cls Plus x by simp
    next
      case PlusLazy
      then obtain x xs where x: "s = x # xs" "c x" "lazy c ?k [x] xs = Some (gs, r)"
        using Cons.prems Cls by (cases s) (auto simp: Let_def split: if_splits)
      from lazy_sound [OF x(3)] obtain pre post where
        "xs = pre @ post" "list_all c pre" "?k ([x] @ pre) post = Some (gs, r)" by blast
      then show ?thesis using step [of "x # pre" post] Cls PlusLazy x by simp
    qed
  qed
qed







text \<open>
  A match of any of the three patterns consumes text, so the test in \<open>re_sub\<close> and
  \<open>re_split\<close> never takes their last branch.
\<close>

lemma rmatch_consumes:
  assumes "rmatch (Cls c One # its) s = Some (gs, r)"
  shows "concat gs \<noteq> [] \<and> s = concat gs @ r \<and> length r < length s"
proof -
  from rmatch_sound [OF assms] have s: "s = concat gs @ r"
    and f: "list_all2 fits (Cls c One # its) gs" by auto
  from f obtain g gs' where "gs = g # gs'" "fits (Cls c One) g" by (auto simp: list_all2_Cons1)
  then have "concat gs \<noteq> []" by (auto split: list.splits)
  then show ?thesis using s by (metis length_append length_greater_0_conv less_add_same_cancel2)
qed

lemma items_start:
  "marker_items = Cls (\<lambda>x. x = CHR ''S'') One # tl marker_items"
  "variant_items = Cls (\<lambda>x. x = CHR ''S'') One # tl variant_items"
  "header_items = Cls (\<lambda>x. x = CHR ''S'') One # tl header_items"
  by (simp_all add: marker_items_def variant_items_def header_items_def lit_def)

lemma matchers_consume:
  assumes "m = marker_match \<or> m = variant_match \<or> m = header_match"
    "m prev s = Some (repl, matched, r)"
  shows "matched \<noteq> [] \<and> s = matched @ r \<and> length r < length s"
proof -
  from assms consider
      gs where "rmatch marker_items s = Some (gs, r)" "matched = concat gs"
    | gs where "rmatch variant_items s = Some (gs, r)" "matched = concat gs"
    | gs where "rmatch header_items s = Some (gs, r)" "matched = concat gs"
    by (auto simp: marker_match_def variant_match_def header_match_def
        simp del: rmatch.simps split: if_splits)
  then show ?thesis
  proof cases
    case 1
    then show ?thesis using rmatch_consumes [of _ "tl marker_items" s gs r] items_start(1) by metis
  next
    case 2
    then show ?thesis using rmatch_consumes [of _ "tl variant_items" s gs r] items_start(2) by metis
  next
    case 3
    then show ?thesis using rmatch_consumes [of _ "tl header_items" s gs r] items_start(3) by metis
  qed
qed



lemma no_word_no_marker: "\<not> occurs ''SECTION'' s \<Longrightarrow> \<not> marker_occurs s"
proof (induction s)
  case Nil
  then show ?case by simp
next
  case (Cons x xs)
  then have "\<not> startswith (x # xs) ''SECTION''" "\<not> occurs ''SECTION'' xs" by auto
  then show ?case using Cons.IH rmatch_lit [of "x # xs" "''SECTION''"]
    by (simp add: marker_items_def)
qed

section \<open>The loop of \<open>split_sections\<close> never fails\<close>

lemma dict_contains_iff: "dict_contains result k \<longleftrightarrow> k \<in> set (map fst result)"
  by (simp add: dict_contains_def map_of_eq_None_iff)

lemma dict_iadd_keys:
  "k \<in> set (map fst result) \<Longrightarrow> \<exists>r. dict_iadd result k v = Inr r \<and> map fst r = map fst result"
proof (induction result)
  case Nil
  then show ?case by simp
next
  case (Cons kv result)
  obtain k' v' where kv: "kv = (k', v')" by (cases kv)
  show ?case
  proof (cases "k' = k")
    case True
    then show ?thesis using kv by simp
  next
    case False
    then have "k \<in> set (map fst result)" using Cons.prems kv by auto
    from Cons.IH [OF this] obtain r where "dict_iadd result k v = Inr r" "map fst r = map fst result"
      by blast
    then show ?thesis using kv False by simp
  qed
qed

lemma dict_set_keys:
  "map fst (dict_set result k v) =
     (if k \<in> set (map fst result) then map fst result else map fst result @ [k])"
proof (induction result)
  case Nil
  then show ?case by simp
next
  case (Cons kv result)
  obtain k' v' where kv: "kv = (k', v')" by (cases kv)
  show ?case using Cons.IH kv by (cases "k' = k") auto
qed

lemma dict_set_has: "k \<in> set (map fst (dict_set result k v))"
  unfolding dict_set_keys by simp

lemma split_loop_total:
  "(\<forall>cs. current = Some cs \<and> cs \<noteq> [] \<longrightarrow> cs \<in> set (map fst result)) \<Longrightarrow>
   \<exists>r. split_loop sections current result = Inr r"
proof (induction sections arbitrary: current result)
  case Nil
  then show ?case by simp
next
  case (Cons part0 sections)
  let ?part = "strip part0"
  show ?case
  proof (cases "?part = []")
    case True
    then show ?thesis using Cons by simp
  next
    case False
    show ?thesis
    proof (cases "startswith ?part ''SECTION:''")
      case True
      show ?thesis
      proof (cases "header_match None ?part")
        case None
        then show ?thesis using Cons \<open>?part \<noteq> []\<close> True by (simp add: Let_def)
      next
        case (Some a)
        then obtain repl matched r where a: "a = (repl, matched, r)" by (cases a) auto
        let ?res = "if dict_contains result (strip matched) then result
                else dict_set result (strip matched) []"
        have "strip matched \<in> set (map fst ?res)"
          using dict_set_has [of "strip matched" result "[]"]
          by (cases "dict_contains result (strip matched)") (simp_all only: dict_contains_iff if_True if_False)
        then have "\<exists>r. split_loop sections (Some (strip matched)) ?res = Inr r"
          by (intro Cons.IH) simp
        then show ?thesis using \<open>?part \<noteq> []\<close> True Some a by (simp add: Let_def)
      qed
    next
      case nohdr: False
      show ?thesis
      proof (cases "\<exists>cs. current = Some cs \<and> cs \<noteq> []")
        case True
        then obtain cs where cs: "current = Some cs" "cs \<noteq> []" by blast
        then have "cs \<in> set (map fst result)" using Cons.prems by simp
        from dict_iadd_keys [OF this, of "strip ?part @ [newline]"] obtain r' where
          r': "dict_iadd result cs (strip ?part @ [newline]) = Inr r'" "map fst r' = map fst result"
          by blast
        then have "\<exists>r. split_loop sections current r' = Inr r"
          using Cons.prems by (intro Cons.IH) simp
        then show ?thesis using \<open>?part \<noteq> []\<close> nohdr cs r' by (simp add: Let_def)
      next
        case False
        then show ?thesis using Cons \<open>?part \<noteq> []\<close> nohdr
          by (cases current) (auto simp: Let_def)
      qed
    qed
  qed
qed

lemma split_document_str: "\<exists>m. split_document (PyStr text) = Inr m"
  by (simp add: split_document_def split_loop_total)

lemma split_document_errors: "split_document document = Inl e \<Longrightarrow> e = TypeError"
proof (cases document)
  case (PyStr t)
  assume "split_document document = Inl e"
  then show ?thesis using split_document_str [of t] PyStr by simp
qed (auto simp: split_document_def)

lemma split_document_empty: "split_document (PyStr []) = Inr []"
  by code_simp

lemma accepted_payload:
  "json_object_or_mapping json_loads payload \<longleftrightarrow>
     (\<exists>d. load_payload json_loads payload = Inr (PyDict d))"
proof (cases payload)
  case (PyStr s)
  show ?thesis
  proof (cases "json_loads s")
    case None
    then show ?thesis using PyStr by (simp add: json_object_or_mapping_def load_payload_def)
  next
    case (Some v)
    then show ?thesis using PyStr
      by (cases v) (simp_all add: json_object_or_mapping_def load_payload_def)
  qed
qed (simp_all add: json_object_or_mapping_def load_payload_def)

lemma rejected_payload:
  assumes "\<not> json_object_or_mapping json_loads payload"
  shows "\<exists>e. split_sections json_loads payload = Inl e \<and> invalid_payload e"
proof (cases payload)
  case (PyStr s)
  show ?thesis
  proof (cases "json_loads s")
    case None
    then show ?thesis using PyStr
      by (simp add: split_sections_def load_payload_def invalid_payload_def)
  next
    case (Some v)
    then show ?thesis using PyStr assms
      by (cases v) (simp_all add: split_sections_def load_payload_def get_requirement_def
          invalid_payload_def json_object_or_mapping_def)
  qed
qed (insert assms, simp_all add: json_object_or_mapping_def split_sections_def load_payload_def
       invalid_payload_def)

lemma split_sections_rejects:
  "(\<exists>e. split_sections json_loads payload = Inl e \<and> invalid_payload e)
     \<longleftrightarrow> \<not> json_object_or_mapping json_loads payload"
proof
  assume "\<exists>e. split_sections json_loads payload = Inl e \<and> invalid_payload e"
  then obtain e where e: "split_sections json_loads payload = Inl e" "e \<noteq> TypeError"
    by (auto simp: invalid_payload_def)
  show "\<not> json_object_or_mapping json_loads payload"
  proof
    assume "json_object_or_mapping json_loads payload"
    then obtain d where "load_payload json_loads payload = Inr (PyDict d)"
      using accepted_payload by blast
    then have "\<exists>document. split_sections json_loads payload = split_document document"
      by (cases "map_of d ''REQUIREMENT''") (auto simp: split_sections_def get_requirement_def)
    then obtain document where "split_sections json_loads payload = split_document document"
      by blast
    then show False using e split_document_errors by auto
  qed
next
  assume "\<not> json_object_or_mapping json_loads payload"
  then show "\<exists>e. split_sections json_loads payload = Inl e \<and> invalid_payload e"
    by (rule rejected_payload)
qed

section \<open>The loop of \<^verbatim>\<open>generator1.py\<close> keeps keys and bodies\<close>

text \<open>
  In \<^verbatim>\<open>generator1.py\<close> the loop never makes a second key for a label, never moves a key
  and never shortens a body: what is there is extended.
\<close>

lemma dict_iadd_values:
  "dict_iadd result k w = Inr r \<Longrightarrow>
   map fst r = map fst result \<and> (\<forall>k' v. (k', v) \<in> set result \<longrightarrow> (\<exists>u. (k', v @ u) \<in> set r))"
proof (induction result arbitrary: r)
  case Nil
  then show ?case by simp
next
  case (Cons kv result)
  obtain k0 v0 where kv: "kv = (k0, v0)" by (cases kv)
  show ?case
  proof (cases "k0 = k")
    case True
    then have r: "r = (k0, v0 @ w) # result" using Cons.prems kv by simp
    have "\<exists>u. (k', v @ u) \<in> set r" if "(k', v) \<in> set (kv # result)" for k' v
    proof (cases "(k', v) = (k0, v0)")
      case True
      then show ?thesis using r by auto
    next
      case False
      then have "(k', v) \<in> set result" using that kv by auto
      then have "(k', v @ []) \<in> set r" using r by simp
      then show ?thesis by blast
    qed
    then show ?thesis using r kv by simp
  next
    case False
    then obtain r0 where r0: "dict_iadd result k w = Inr r0" "r = (k0, v0) # r0"
      using Cons.prems kv by (auto split: sum.splits)
    from Cons.IH [OF r0(1)] have ih: "map fst r0 = map fst result"
      "\<And>k' v. (k', v) \<in> set result \<Longrightarrow> \<exists>u. (k', v @ u) \<in> set r0" by auto
    have "\<exists>u. (k', v @ u) \<in> set r" if "(k', v) \<in> set (kv # result)" for k' v
    proof (cases "(k', v) = (k0, v0)")
      case True
      then have "(k', v @ []) \<in> set r" using r0 by simp
      then show ?thesis by blast
    next
      case False
      then have "(k', v) \<in> set result" using that kv by auto
      from ih(2) [OF this] show ?thesis using r0 by auto
    qed
    then show ?thesis using r0 kv ih(1) by simp
  qed
qed

lemma dict_set_new:
  "k \<notin> set (map fst result) \<Longrightarrow> dict_set result k v = result @ [(k, v)]"
proof (induction result)
  case Nil
  then show ?case by simp
next
  case (Cons kv result)
  obtain k0 v0 where kv: "kv = (k0, v0)" by (cases kv)
  then show ?case using Cons by auto
qed

lemma extends_refl: "extends result result"
proof -
  have "map fst result = map fst result @ []" by simp
  moreover have "\<forall>k v. (k, v) \<in> set result \<longrightarrow> (\<exists>u. (k, v @ u) \<in> set result)"
  proof (intro allI impI)
    fix k v assume "(k, v) \<in> set result"
    then have "(k, v @ []) \<in> set result" by simp
    then show "\<exists>u. (k, v @ u) \<in> set result" by blast
  qed
  ultimately show ?thesis unfolding extends_def by blast
qed

lemma extends_trans:
  assumes "extends a b" "extends b c"
  shows "extends a c"
proof -
  from assms obtain ks1 ks2 where "map fst b = map fst a @ ks1" "map fst c = map fst b @ ks2"
    unfolding extends_def by blast
  then have 1: "map fst c = map fst a @ (ks1 @ ks2)" by simp
  have 2: "\<exists>u. (k, v @ u) \<in> set c" if "(k, v) \<in> set a" for k v
  proof -
    from that assms(1) obtain u1 where "(k, v @ u1) \<in> set b" unfolding extends_def by blast
    with assms(2) obtain u2 where "(k, (v @ u1) @ u2) \<in> set c" unfolding extends_def by blast
    then have "(k, v @ (u1 @ u2)) \<in> set c" by simp
    then show ?thesis by blast
  qed
  show ?thesis unfolding extends_def using 1 2 by blast
qed

lemma split_loop_keeps:
  assumes "distinct (map fst result)" "split_loop sections current result = Inr r"
  shows "distinct (map fst r) \<and> extends result r"
  using assms
proof (induction sections arbitrary: current result)
  case Nil
  then show ?case using extends_refl by simp
next
  case (Cons part0 sections)
  let ?part = "strip part0"
  have "\<exists>current' result'. distinct (map fst result') \<and> extends result result' \<and>
          split_loop sections current' result' = Inr r"
  proof (cases "?part = []")
    case True
    then show ?thesis using Cons.prems extends_refl by auto
  next
    case False
    show ?thesis
    proof (cases "startswith ?part ''SECTION:''")
      case True
      show ?thesis
      proof (cases "header_match None ?part")
        case None
        then show ?thesis using Cons.prems False True extends_refl by (auto simp: Let_def)
      next
        case (Some a)
        then obtain repl matched r0 where a: "a = (repl, matched, r0)" by (cases a) auto
        let ?k = "strip matched"
        show ?thesis
        proof (cases "dict_contains result ?k")
          case c: True
          then have "split_loop sections (Some ?k) result = Inr r"
            using Cons.prems(2) False True Some a by (simp add: Let_def)
          then show ?thesis using Cons.prems(1) extends_refl by blast
        next
          case c: False
          then have new: "?k \<notin> set (map fst result)" by (simp only: dict_contains_iff not_False_eq_True)
          have run: "split_loop sections (Some ?k) (result @ [(?k, [])]) = Inr r"
            using Cons.prems(2) False True Some a c dict_set_new [OF new, of "[]"]
            by (simp add: Let_def)
          have d: "distinct (map fst (result @ [(?k, [])]))" using Cons.prems(1) new by simp
          have "map fst (result @ [(?k, [])]) = map fst result @ [?k]" by simp
          moreover have "\<forall>k v. (k, v) \<in> set result \<longrightarrow> (\<exists>u. (k, v @ u) \<in> set (result @ [(?k, [])]))"
          proof (intro allI impI)
            fix k v assume "(k, v) \<in> set result"
            then have "(k, v @ []) \<in> set (result @ [(?k, [])])" by simp
            then show "\<exists>u. (k, v @ u) \<in> set (result @ [(?k, [])])" by blast
          qed
          ultimately have "extends result (result @ [(?k, [])])" unfolding extends_def by blast
          then show ?thesis using run d by blast
        qed
      qed
    next
      case nohdr: False
      show ?thesis
      proof (cases "\<exists>cs. current = Some cs \<and> cs \<noteq> []")
        case True
        then obtain cs where cs: "current = Some cs" "cs \<noteq> []" by blast
        then obtain r' where r': "dict_iadd result cs (strip ?part @ [newline]) = Inr r'"
            "split_loop sections current r' = Inr r"
          using Cons.prems(2) False nohdr by (auto simp: Let_def split: sum.splits)
        from dict_iadd_values [OF r'(1)] have
          "map fst r' = map fst result"
          "\<forall>k' v. (k', v) \<in> set result \<longrightarrow> (\<exists>u. (k', v @ u) \<in> set r')" by auto
        then have "distinct (map fst r')" "extends result r'"
          using Cons.prems(1) unfolding extends_def by auto
        then show ?thesis using r'(2) by blast
      next
        case False
        then have "split_loop sections current result = Inr r"
          using Cons.prems(2) \<open>?part \<noteq> []\<close> nohdr by (cases current) (auto simp: Let_def)
        then show ?thesis using Cons.prems(1) extends_refl by blast
      qed
    qed
  qed
  then obtain current' result' where
    1: "distinct (map fst result')" "extends result result'"
       "split_loop sections current' result' = Inr r" by blast
  from Cons.IH [OF 1(1) 1(3)] have "distinct (map fst r)" "extends result' r" by auto
  then show ?case using 1(2) extends_trans by blast
qed

lemma split_sections_unique_keys:
  "split_sections json_loads payload = Inr r \<Longrightarrow> distinct (map fst r)"
proof -
  assume a: "split_sections json_loads payload = Inr r"
  then obtain document where "split_document document = Inr r"
    by (auto simp: split_sections_def split: sum.splits)
  then obtain t where "split_loop (re_split header_match [] (normalize t)) None [] = Inr r"
    by (cases document) (auto simp: split_document_def)
  from split_loop_keeps [OF _ this] show ?thesis by simp
qed

section \<open>Filling the rows of a table\<close>





section \<open>The parser, line by line\<close>

lemma code_lines:
  "in_code_block s \<Longrightarrow> list_all (\<lambda>l. \<not> startswith (strip l) ''```'') body \<Longrightarrow>
   process s body = Inr (s\<lparr> code_block_lines := code_block_lines s @ filter (\<lambda>l. l \<noteq> []) (map strip body) \<rparr>)"
proof (induction body arbitrary: s)
  case Nil
  then show ?case by simp
next
  case (Cons l body)
  show ?case
  proof (cases "strip l = []")
    case True
    then have "step s l = Inr s" by (simp add: step_def)
    then show ?thesis using Cons True by simp
  next
    case False
    then have "step s l = Inr (s\<lparr> code_block_lines := code_block_lines s @ [strip l] \<rparr>)"
      using Cons.prems by (simp add: step_def Let_def)
    then show ?thesis using Cons False by simp
  qed
qed

lemma process_append:
  "process s (xs @ ys) = (case process s xs of Inl e \<Rightarrow> Inl e | Inr s' \<Rightarrow> process s' ys)"
  by (induction xs arbitrary: s) (auto split: sum.splits)

lemma doc_flush_section:
  "doc (flush_section s) = doc s @
     (if current_section s \<noteq> [] \<and> current_section s \<notin> seen_sections s
      then [Heading (current_section s)] else []) @ map Paragraph (current_content s)"
  by (simp add: flush_section_def Let_def)

lemma flush_section_fields:
  "current_section (flush_section s) = current_section s"
  "current_content (flush_section s) = []"
  "in_code_block (flush_section s) = in_code_block s"
  "code_block_lines (flush_section s) = code_block_lines s"
  "in_table (flush_section s) = in_table s"
  "table_lines (flush_section s) = table_lines s"
  "known_main_sections (flush_section s) = known_main_sections s"
  "seen_sections (flush_section s) =
     (if current_section s \<noteq> [] then insert (current_section s) (seen_sections s)
      else seen_sections s)"
  by (auto simp: flush_section_def Let_def)

lemma step_before_heading:
  assumes "step s l = Inr s1" "current_section s = []"
  shows "(current_section s1 = [] \<and>
          (\<exists>a more. doc s1 = doc s @ a \<and> (\<forall>h. Heading h \<notin> set a) \<and>
             current_content s1 = current_content s @ more))
         \<or> (\<exists>b. doc s1 = doc s @ map Paragraph (current_content s) @ b)"
  using assms
  by (auto simp: step_def Let_def doc_flush_section flush_section_fields
      split: if_splits option.splits sum.splits prod.splits)

lemma step_doc_grows: "step s l = Inr s1 \<Longrightarrow> \<exists>r. doc s1 = doc s @ r"
  by (auto simp: step_def Let_def doc_flush_section flush_section_fields
      split: if_splits option.splits sum.splits prod.splits)

lemma process_doc_grows: "process s ls = Inr s1 \<Longrightarrow> \<exists>r. doc s1 = doc s @ r"
proof (induction ls arbitrary: s)
  case Nil
  then show ?case by simp
next
  case (Cons l ls)
  then obtain s0 where 1: "step s l = Inr s0" and 2: "process s0 ls = Inr s1"
    by (auto split: sum.splits)
  from step_doc_grows [OF 1] Cons.IH [OF 2] show ?case by auto
qed

lemma pending_content_emitted:
  assumes "current_section s = []" "process s rest = Inr s'"
  shows "\<exists>a b. doc (flush_section s') = doc s @ a @ map Paragraph (current_content s) @ b \<and>
           (\<forall>h. Heading h \<notin> set a)"
  using assms
proof (induction rest arbitrary: s)
  case Nil
  then have "doc (flush_section s') = doc s @ [] @ map Paragraph (current_content s) @ []"
    by (simp add: doc_flush_section)
  then show ?case by (metis empty_iff empty_set)
next
  case (Cons l rest)
  then obtain s1 where 1: "step s l = Inr s1" and 2: "process s1 rest = Inr s'"
    by (auto split: sum.splits)
  from step_before_heading [OF 1 Cons.prems(1)]
  consider (pending) a more where "current_section s1 = []" "doc s1 = doc s @ a"
      "\<forall>h. Heading h \<notin> set a" "current_content s1 = current_content s @ more"
    | (flushed) b where "doc s1 = doc s @ map Paragraph (current_content s) @ b"
    by blast
  then show ?case
  proof cases
    case pending
    from Cons.IH [OF pending(1) 2] obtain a' b' where
      "doc (flush_section s') = doc s1 @ a' @ map Paragraph (current_content s1) @ b'"
      "\<forall>h. Heading h \<notin> set a'" by blast
    then have "doc (flush_section s') =
        doc s @ (a @ a') @ map Paragraph (current_content s) @ (map Paragraph more @ b')"
      "\<forall>h. Heading h \<notin> set (a @ a')"
      using pending by auto
    then show ?thesis by blast
  next
    case flushed
    from process_doc_grows [OF 2] obtain r where "doc s' = doc s1 @ r" by blast
    then have "doc (flush_section s') =
        doc s @ [] @ map Paragraph (current_content s) @ (b @ r @
          (if current_section s' \<noteq> [] \<and> current_section s' \<notin> seen_sections s'
           then [Heading (current_section s')] else []) @ map Paragraph (current_content s'))"
      using flushed by (simp add: doc_flush_section)
    then show ?thesis by (metis empty_iff empty_set)
  qed
qed

lemma content_lines_pending:
  "\<not> in_code_block s \<Longrightarrow> \<not> in_table s \<Longrightarrow> list_all content_line pre \<Longrightarrow>
   process s pre = Inr (s\<lparr> current_content := current_content s @ map strip pre \<rparr>)"
proof (induction pre arbitrary: s)
  case Nil
  then show ?case by simp
next
  case (Cons l pre)
  then have "step s l = Inr (s\<lparr> current_content := current_content s @ [strip l] \<rparr>)"
    by (simp add: step_def content_line_def Let_def)
  then show ?case using Cons by simp
qed

lemma split_loop_discards:
  "\<not> startswith (strip part) ''SECTION:'' \<Longrightarrow>
   split_loop (part # sections) None result = split_loop sections None result"
  by (simp add: Let_def)

lemma auto_title_inj: "auto_title n = auto_title n' \<Longrightarrow> n = n'"
  by (simp add: auto_title_def)

lemma auto_title_section:
  assumes "list_all isdigit n" "list_all isdigit g1" "auto_title n = g1 @ ''. '' @ g2"
  shows "n = g1"
proof -
  have "n @ CHR ''.'' # '' (Auto) Section'' = g1 @ CHR ''.'' # ('' '' @ g2)"
    using assms(3) by (simp add: auto_title_def)
  from digits_prefix_unique [OF assms(1,2) this] show ?thesis by simp
qed

lemma inv_init: "parser_inv (init title)"
  by (simp add: parser_inv_def init_def)

lemma inv_flush:
  assumes "parser_inv s"
  shows "parser_inv (flush_section s)"
proof -
  have 1: "\<forall>h. Heading h \<in> set (doc (flush_section s)) \<longrightarrow> h \<in> seen_sections (flush_section s)"
    using assms by (auto simp: parser_inv_def doc_flush_section flush_section_fields)
  have 2: "\<forall>n. list_all isdigit n \<and> auto_title n \<in> seen_sections (flush_section s)
             \<longrightarrow> n \<in> known_main_sections (flush_section s)"
  proof (intro allI impI)
    fix n assume n: "list_all isdigit n \<and> auto_title n \<in> seen_sections (flush_section s)"
    show "n \<in> known_main_sections (flush_section s)"
    proof (cases "auto_title n \<in> seen_sections s")
      case True
      then show ?thesis using assms n by (auto simp: parser_inv_def flush_section_fields)
    next
      case False
      then have c: "current_section s = auto_title n" "current_section s \<noteq> []"
        using n by (auto simp: flush_section_fields split: if_splits)
      then obtain g1 g2 where g: "current_section s = g1 @ ''. '' @ g2" "list_all isdigit g1"
          "g1 \<in> known_main_sections s"
        using assms by (auto simp: parser_inv_def)
      from auto_title_section [of n g1 g2] n c g have "n = g1" by simp
      then show ?thesis using g by (simp add: flush_section_fields)
    qed
  qed
  have 3: "current_section (flush_section s) = [] \<or>
       (\<exists>g1 g2. current_section (flush_section s) = g1 @ ''. '' @ g2 \<and> list_all isdigit g1 \<and>
          g1 \<in> known_main_sections (flush_section s))"
    using assms by (simp add: parser_inv_def flush_section_fields)
  show ?thesis unfolding parser_inv_def using 1 2 3 by blast
qed

lemma inv_frame:
  assumes "parser_inv s" "set (doc s') \<subseteq> set (doc s) \<union> {b. \<forall>h. b \<noteq> Heading h}"
    "seen_sections s' = seen_sections s" "known_main_sections s' = known_main_sections s"
    "current_section s' = current_section s"
  shows "parser_inv s'"
  using assms unfolding parser_inv_def by auto

lemma step_subheading:
  assumes "\<not> in_code_block s" "\<not> in_table s" "subheading_pattern (strip l) = Some (n, m, t)"
  shows "step s l = Inr
     (let s1 = flush_section s;
          s2 = (if n \<notin> known_main_sections s1
                then (if auto_title n \<notin> seen_sections s1
                      then s1\<lparr> doc := doc s1 @ [Heading (auto_title n)],
                               seen_sections := insert (auto_title n) (seen_sections s1),
                               known_main_sections := insert n (known_main_sections s1) \<rparr>
                      else s1)
                else s1)
      in s2\<lparr> doc := doc s2 @ [Subheading (n @ ''.'' @ m @ '' '' @ t)] \<rparr>)"
  using assms sub_default [OF assms(3)] sub_not_header [OF assms(3)]
  by (simp add: step_def Let_def auto_title_def)

lemma inv_step:
  assumes "parser_inv s" "step s l = Inr s'"
  shows "parser_inv s'"
proof -
  let ?line = "strip l"
  consider (same) "s' = s"
    | (fence_open) "s' = s\<lparr> in_code_block := True \<rparr>"
    | (fence_close) "s' = s\<lparr> in_code_block := False, doc := doc s @ [CodeBlock (code_block_lines s)],
                       code_block_lines := [] \<rparr>"
    | (code) "s' = s\<lparr> code_block_lines := code_block_lines s @ [?line] \<rparr>"
    | (row) "s' = s\<lparr> table_lines := table_lines s @ [?line], in_table := True \<rparr>"
    | (table) t where "s' = (flush_section s)\<lparr> doc := doc (flush_section s) @ [Table t],
                          table_lines := [], in_table := False \<rparr>"
    | (header) g1 g2 where "section_header_pattern ?line = Some (g1, g2)"
        "s' = (flush_section s)\<lparr> current_section := g1 @ ''. '' @ g2,
                 known_main_sections := insert g1 (known_main_sections (flush_section s)) \<rparr>"
    | (sub) n m t where "\<not> in_code_block s" "\<not> in_table s" "subheading_pattern ?line = Some (n, m, t)"
    | (content) "s' = s\<lparr> current_content := current_content s @ [?line] \<rparr>"
    using assms(2)
    by (auto simp: step_def Let_def add_markdown_table_def
        split: if_splits option.splits sum.splits prod.splits list.splits)
  then show ?thesis
  proof cases
    case same
    then show ?thesis using assms by simp
  next
    case fence_open
    then show ?thesis using assms(1) by (auto intro: inv_frame)
  next
    case fence_close
    then show ?thesis using assms(1) by (auto intro!: inv_frame [of s])
  next
    case code
    then show ?thesis using assms(1) by (auto intro: inv_frame)
  next
    case row
    then show ?thesis using assms(1) by (auto intro: inv_frame)
  next
    case (table t)
    then show ?thesis using inv_flush [OF assms(1)] by (auto intro!: inv_frame [of "flush_section s"])
  next
    case (header g1 g2)
    from header_shape [OF header(1)] have "list_all isdigit g1" by simp
    then show ?thesis using inv_flush [OF assms(1)] header(2)
      unfolding parser_inv_def by auto
  next
    case (sub n m t)
    from step_subheading [OF sub] assms(2) have
      "s' = (let s1 = flush_section s;
          s2 = (if n \<notin> known_main_sections s1
                then (if auto_title n \<notin> seen_sections s1
                      then s1\<lparr> doc := doc s1 @ [Heading (auto_title n)],
                               seen_sections := insert (auto_title n) (seen_sections s1),
                               known_main_sections := insert n (known_main_sections s1) \<rparr>
                      else s1)
                else s1)
      in s2\<lparr> doc := doc s2 @ [Subheading (n @ ''.'' @ m @ '' '' @ t)] \<rparr>)" by simp
    then show ?thesis using inv_flush [OF assms(1)]
      unfolding parser_inv_def Let_def by (auto dest: auto_title_inj)
  next
    case content
    then show ?thesis using assms(1) by (auto intro: inv_frame)
  qed
qed

lemma inv_process: "parser_inv s \<Longrightarrow> process s ls = Inr s' \<Longrightarrow> parser_inv s'"
proof (induction ls arbitrary: s)
  case Nil
  then show ?case by simp
next
  case (Cons l ls)
  then obtain s1 where "step s l = Inr s1" "process s1 ls = Inr s'"
    by (auto split: sum.splits)
  then show ?case using Cons inv_step by blast
qed

lemma flush_new_headings:
  "\<exists>r. doc (flush_section s) = doc s @ r \<and> (\<forall>h. Heading h \<in> set r \<longrightarrow> h \<notin> seen_sections s) \<and>
       seen_sections s \<subseteq> seen_sections (flush_section s)"
  by (auto simp: doc_flush_section flush_section_fields)

lemma add_markdown_table_Table: "add_markdown_table ls = Inr b \<Longrightarrow> \<exists>g. b = Table g"
  by (auto simp: add_markdown_table_def Let_def split: list.splits sum.splits)

lemma step_new_headings:
  assumes "step s l = Inr s'"
  shows "\<exists>r. doc s' = doc s @ r \<and> (\<forall>h. Heading h \<in> set r \<longrightarrow> h \<notin> seen_sections s) \<and>
       seen_sections s \<subseteq> seen_sections s'"
  using assms
  by (auto simp: step_def Let_def doc_flush_section flush_section_fields
      dest: add_markdown_table_Table
      split: if_splits option.splits sum.splits prod.splits)

lemma process_new_headings:
  "process s ls = Inr s' \<Longrightarrow>
   \<exists>r. doc s' = doc s @ r \<and> (\<forall>h. Heading h \<in> set r \<longrightarrow> h \<notin> seen_sections s) \<and>
       seen_sections s \<subseteq> seen_sections s'"
proof (induction ls arbitrary: s)
  case Nil
  then show ?case by simp
next
  case (Cons l ls)
  then obtain s1 where 1: "step s l = Inr s1" and 2: "process s1 ls = Inr s'"
    by (auto split: sum.splits)
  from step_new_headings [OF 1] obtain r1 where
    r1: "doc s1 = doc s @ r1" "\<forall>h. Heading h \<in> set r1 \<longrightarrow> h \<notin> seen_sections s"
      "seen_sections s \<subseteq> seen_sections s1" by blast
  from Cons.IH [OF 2] obtain r2 where
    r2: "doc s' = doc s1 @ r2" "\<forall>h. Heading h \<in> set r2 \<longrightarrow> h \<notin> seen_sections s1"
      "seen_sections s1 \<subseteq> seen_sections s'" by blast
  have "doc s' = doc s @ (r1 @ r2)" using r1 r2 by simp
  moreover have "\<forall>h. Heading h \<in> set (r1 @ r2) \<longrightarrow> h \<notin> seen_sections s"
    using r1 r2 by auto
  moreover have "seen_sections s \<subseteq> seen_sections s'" using r1 r2 by auto
  ultimately show ?case by blast
qed

section \<open>Scenario 4 of the SectionSplitter\<close>

text \<open>
  C1.  For the payload whose \<^verbatim>\<open>REQUIREMENT\<close> is
  \<^verbatim>\<open>"SECTION:1. Purpose\nDo X.\nSECTION 2. Scope\nDo Y.\n"\<close>, given as a mapping or as a
  JSON text that decodes to it, \<open>split_sections\<close> returns the ordered mapping of
  \<^verbatim>\<open>"SECTION: 1. Purpose"\<close> to \<^verbatim>\<open>"Do X.\n"\<close> and \<^verbatim>\<open>"SECTION: 2. Scope"\<close> to \<^verbatim>\<open>"Do Y.\n"\<close>:
  both header variants get the canonical label, each body is trimmed and ends in a
  newline.
\<close>

theorem split_sections_scenario4:
  "split_sections json_loads
     (PyDict [(''REQUIREMENT'',
        PyStr ''SECTION:1. Purpose\<newline>Do X.\<newline>SECTION 2. Scope\<newline>Do Y.\<newline>'')])
   = Inr [(''SECTION: 1. Purpose'', ''Do X.\<newline>''), (''SECTION: 2. Scope'', ''Do Y.\<newline>'')]
   \<and>
   split_sections
     (\<lambda>text. Some (PyDict [(''REQUIREMENT'',
        PyStr ''SECTION:1. Purpose\<newline>Do X.\<newline>SECTION 2. Scope\<newline>Do Y.\<newline>'')]))
     (PyStr payload)
   = Inr [(''SECTION: 1. Purpose'', ''Do X.\<newline>''), (''SECTION: 2. Scope'', ''Do Y.\<newline>'')]"
  by code_simp

section \<open>A label that occurs twice\<close>

text \<open>
  C2.  On the requirement text \<^verbatim>\<open>"SECTION: 1. A\nfoo\nSECTION: 1. A\nbar"\<close> the
  \<open>split_sections\<close> of \<^verbatim>\<open>generator3.py\<close> keeps one key for the label but its body is only
  \<^verbatim>\<open>"bar\n"\<close>: the second occurrence of the label resets the entry, so the earlier body is
  replaced, not appended to.  The \<open>split_sections\<close> of \<^verbatim>\<open>generator1.py\<close> returns
  \<^verbatim>\<open>"foo\nbar\n"\<close> there.
\<close>

theorem split_sections3_replaces_body:
  "split_sections3 json_loads
     (PyDict [(''REQUIREMENT'', PyStr ''SECTION: 1. A\<newline>foo\<newline>SECTION: 1. A\<newline>bar'')])
   = Inr [(''SECTION: 1. A'', ''bar\<newline>'')]
   \<and>
   split_sections json_loads
     (PyDict [(''REQUIREMENT'', PyStr ''SECTION: 1. A\<newline>foo\<newline>SECTION: 1. A\<newline>bar'')])
   = Inr [(''SECTION: 1. A'', ''foo\<newline>bar\<newline>'')]"
  by code_simp

section \<open>The end of the input\<close>

text \<open>
  C3.  At the end of the input \<open>generate_doc\<close> flushes the pending content and nothing
  else.  A document that ends in a table, \<^verbatim>\<open>"intro\n|A|B|\n|-|-|\n|1|2|"\<close>, yields the
  title and the paragraph \<^verbatim>\<open>intro\<close> and no table; one that ends inside a fence,
  \<^verbatim>\<open>"```\nline1"\<close>, yields the title alone and no code block.
\<close>

theorem generate_doc_drops_open_buffers:
  "generate_doc ''intro\<newline>|A|B|\<newline>|-|-|\<newline>|1|2|'' title
     = Inr [Title title, Paragraph ''intro'']
   \<and> generate_doc ''```\<newline>line1'' title = Inr [Title title]"
  by code_simp

section \<open>Running the Normalizer twice\<close>




section \<open>The order of the blocks\<close>

text \<open>
  C5.  \<open>generate_doc\<close> adds a code block when its closing fence is read, without flushing
  first: on \<^verbatim>\<open>"hello\n```\nx\n```"\<close> the code block comes before the paragraph
  \<^verbatim>\<open>hello\<close> that precedes it in the input, and on \<^verbatim>\<open>"1. Purpose\n```\nx\n```"\<close> before
  the heading.  (The table branch flushes before it adds the table.)
\<close>

theorem generate_doc_code_block_overtakes:
  "generate_doc ''hello\<newline>```\<newline>x\<newline>```'' title
     = Inr [Title title, CodeBlock [''x''], Paragraph ''hello'']
   \<and> generate_doc ''1. Purpose\<newline>```\<newline>x\<newline>```'' title
     = Inr [Title title, CodeBlock [''x''], Heading ''1. Purpose'']"
  by code_simp

section \<open>The placeholder heading\<close>

text \<open>
  Where the subheading line is read outside a code block and outside a table, the
  placeholder works as meant.  Let the parser, after the lines \<open>pre\<close>, be in neither
  state, and let the next line be a subheading line \<open>n.m t\<close> whose main number \<open>n\<close> is
  not known (no heading line for \<open>n\<close> and no subheading of \<open>n\<close> was read).  Then this
  line, after the flush of what is pending, adds the placeholder heading
  \<^verbatim>\<open>n. (Auto) Section\<close> and right behind it the subheading, and records \<open>n\<close> as known;
  the placeholder heading occurs nowhere before in the document and nowhere after it,
  whatever lines follow.
\<close>

lemma auto_heading_once:
  assumes pre: "process (init title) pre = Inr s"
    and mode: "\<not> in_code_block s" "\<not> in_table s"
    and sub: "subheading_pattern (strip l) = Some (n, m, t)"
    and new: "n \<notin> known_main_sections s"
    and all: "process (init title) (pre @ l # post) = Inr s'"
  shows "\<exists>s1 rest.
           step s l = Inr s1 \<and> n \<in> known_main_sections s1 \<and>
           doc s1 = doc (flush_section s) @
              [Heading (auto_title n), Subheading (n @ ''.'' @ m @ '' '' @ t)] \<and>
           doc (flush_section s') = doc s1 @ rest \<and>
           Heading (auto_title n) \<notin> set (doc (flush_section s)) \<and>
           Heading (auto_title n) \<notin> set rest"
proof -
  let ?f = "flush_section s"
  have inv: "parser_inv ?f" using inv_process [OF inv_init pre] by (rule inv_flush)
  have digits: "list_all isdigit n" using sub_shape [OF sub] by simp
  have unseen: "auto_title n \<notin> seen_sections ?f"
    using inv digits new unfolding parser_inv_def by (auto simp: flush_section_fields)
  have before: "Heading (auto_title n) \<notin> set (doc ?f)"
    using inv unseen unfolding parser_inv_def by auto
  let ?s1 = "?f\<lparr> doc := doc ?f @ [Heading (auto_title n)],
                 seen_sections := insert (auto_title n) (seen_sections ?f),
                 known_main_sections := insert n (known_main_sections ?f),
                 doc := doc ?f @ [Heading (auto_title n), Subheading (n @ ''.'' @ m @ '' '' @ t)] \<rparr>"
  have st: "step s l = Inr ?s1"
    using step_subheading [OF mode sub] new unseen by (simp add: Let_def flush_section_fields)
  have "process ?s1 post = Inr s'"
    using all pre st by (simp add: process_append)
  from process_new_headings [OF this] obtain r where
    r: "doc s' = doc ?s1 @ r" "\<forall>h. Heading h \<in> set r \<longrightarrow> h \<notin> seen_sections ?s1"
      "seen_sections ?s1 \<subseteq> seen_sections s'" by blast
  from flush_new_headings [of s'] obtain r' where
    r': "doc (flush_section s') = doc s' @ r'" "\<forall>h. Heading h \<in> set r' \<longrightarrow> h \<notin> seen_sections s'"
    by blast
  have "doc (flush_section s') = doc ?s1 @ (r @ r')" using r r' by simp
  moreover have "Heading (auto_title n) \<notin> set (r @ r')" using r r' by auto
  moreover have "n \<in> known_main_sections ?s1" by simp
  moreover have "doc ?s1 = doc ?f @ [Heading (auto_title n), Subheading (n @ ''.'' @ m @ '' '' @ t)]"
    by simp
  ultimately show ?thesis using st before by blast
qed

lemma auto_heading_once_example:
  "process (init ''T'') [''intro''] = Inr ((init ''T'')\<lparr> current_content := [''intro''] \<rparr>)
   \<and> \<not> in_code_block ((init ''T'')\<lparr> current_content := [''intro''] \<rparr>)
   \<and> \<not> in_table ((init ''T'')\<lparr> current_content := [''intro''] \<rparr>)
   \<and> subheading_pattern (strip ''2.1 Scope'') = Some (''2'', ''1'', ''Scope'')
   \<and> ''2'' \<notin> known_main_sections ((init ''T'')\<lparr> current_content := [''intro''] \<rparr>)
   \<and> process (init ''T'') ([''intro''] @ ''2.1 Scope'' # [''2.2 More'']) =
       Inr \<lparr> doc = [Title ''T'', Paragraph ''intro'', Heading ''2. (Auto) Section'',
                    Subheading ''2.1 Scope'', Subheading ''2.2 More''],
             current_section = [], current_content = [],
             seen_sections = {''2. (Auto) Section''}, in_code_block = False,
             code_block_lines = [], in_table = False, table_lines = [],
             known_main_sections = {''2''} \<rparr>
   \<and> (\<exists>s1 rest.
           step ((init ''T'')\<lparr> current_content := [''intro''] \<rparr>) ''2.1 Scope'' = Inr s1 \<and>
           ''2'' \<in> known_main_sections s1 \<and>
           doc s1 = doc (flush_section ((init ''T'')\<lparr> current_content := [''intro''] \<rparr>)) @
              [Heading (auto_title ''2''), Subheading (''2'' @ ''.'' @ ''1'' @ '' '' @ ''Scope'')] \<and>
           doc (flush_section \<lparr> doc = [Title ''T'', Paragraph ''intro'', Heading ''2. (Auto) Section'',
                    Subheading ''2.1 Scope'', Subheading ''2.2 More''],
             current_section = [], current_content = [],
             seen_sections = {''2. (Auto) Section''}, in_code_block = False,
             code_block_lines = [], in_table = False, table_lines = [],
             known_main_sections = {''2''} \<rparr>) = doc s1 @ rest \<and>
           Heading (auto_title ''2'') \<notin>
             set (doc (flush_section ((init ''T'')\<lparr> current_content := [''intro''] \<rparr>))) \<and>
           Heading (auto_title ''2'') \<notin> set rest)"
proof -
  let ?s = "(init ''T'')\<lparr> current_content := [''intro''] \<rparr>"
  let ?s' = "\<lparr> doc = [Title ''T'', Paragraph ''intro'', Heading ''2. (Auto) Section'',
                    Subheading ''2.1 Scope'', Subheading ''2.2 More''],
             current_section = [], current_content = [],
             seen_sections = {''2. (Auto) Section''}, in_code_block = False,
             code_block_lines = [], in_table = False, table_lines = [],
             known_main_sections = {''2''} \<rparr>"
  have 1: "process (init ''T'') [''intro''] = Inr ?s" by code_simp
  have 2: "\<not> in_code_block ?s" by (simp add: init_def)
  have 3: "\<not> in_table ?s" by (simp add: init_def)
  have 4: "subheading_pattern (strip ''2.1 Scope'') = Some (''2'', ''1'', ''Scope'')" by code_simp
  have 5: "''2'' \<notin> known_main_sections ?s" by (simp add: init_def)
  have 6: "process (init ''T'') ([''intro''] @ ''2.1 Scope'' # [''2.2 More'']) = Inr ?s'"
    by code_simp
  from auto_heading_once [OF 1 2 3 4 5 6] 1 2 3 4 5 6 show ?thesis by blast
qed

text \<open>
  C6.  A subheading line that directly follows the rows of a table is not treated as a
  subheading: the branch that commits the table ends with \<^verbatim>\<open>continue\<close>, so the line that
  closes the table is consumed.  On \<^verbatim>\<open>"|a|\n|-|\n3.1 Overview\ntext"\<close> the document gets
  the table and the paragraph \<^verbatim>\<open>text\<close>, but neither the placeholder heading for 3 nor
  the subheading \<^verbatim>\<open>3.1 Overview\<close>; without the table in front,
  \<^verbatim>\<open>"3.1 Overview\ntext"\<close> yields the placeholder heading, the subheading and the
  paragraph.
\<close>

theorem subheading_after_table_dropped:
  "generate_doc ''|a|\<newline>|-|\<newline>3.1 Overview\<newline>text'' title
     = Inr [Title title, Table [[''a'']], Paragraph ''text'']
   \<and> generate_doc ''3.1 Overview\<newline>text'' title
     = Inr [Title title, Heading ''3. (Auto) Section'', Subheading ''3.1 Overview'',
            Paragraph ''text'']"
  by code_simp

section \<open>Payloads that are rejected\<close>

text \<open>
  C7.  \<open>split_sections\<close> fails with one of the exceptions of \<open>invalid_payload\<close> exactly
  when the payload is neither a mapping nor a text that \<^verbatim>\<open>json.loads\<close> decodes to an
  object.  On a payload that is one of the two, the only failure left is the
  \<^verbatim>\<open>TypeError\<close> of \<^verbatim>\<open>re.sub\<close> on a requirement that is not a text.  A mapping without
  the key \<^verbatim>\<open>REQUIREMENT\<close>, given as it is or as JSON text, yields the empty section map.
\<close>

theorem split_sections_invalid_payload:
  "((\<exists>e. split_sections json_loads payload = Inl e \<and> invalid_payload e)
      \<longleftrightarrow> \<not> json_object_or_mapping json_loads payload)
   \<and> (json_object_or_mapping json_loads payload \<longrightarrow>
        split_sections json_loads payload = Inl TypeError \<or>
        (\<exists>m. split_sections json_loads payload = Inr m))
   \<and> (map_of d ''REQUIREMENT'' = None \<longrightarrow> split_sections json_loads (PyDict d) = Inr [])
   \<and> (json_loads js = Some (PyDict d) \<and> map_of d ''REQUIREMENT'' = None
        \<longrightarrow> split_sections json_loads (PyStr js) = Inr [])"
proof (intro conjI impI)
  show "(\<exists>e. split_sections json_loads payload = Inl e \<and> invalid_payload e)
      \<longleftrightarrow> \<not> json_object_or_mapping json_loads payload"
    using split_sections_rejects [of json_loads payload] by blast
next
  assume "json_object_or_mapping json_loads payload"
  then obtain d' where "load_payload json_loads payload = Inr (PyDict d')"
    using accepted_payload by blast
  then have "\<exists>document. split_sections json_loads payload = split_document document"
    by (cases "map_of d' ''REQUIREMENT''") (auto simp: split_sections_def get_requirement_def)
  then obtain document where 1: "split_sections json_loads payload = split_document document"
    by blast
  show "split_sections json_loads payload = Inl TypeError \<or>
        (\<exists>m. split_sections json_loads payload = Inr m)"
  proof (cases "split_document document")
    case (Inl e)
    then show ?thesis using 1 split_document_errors by simp
  next
    case (Inr m)
    then show ?thesis using 1 by simp
  qed
next
  assume "map_of d ''REQUIREMENT'' = None"
  then show "split_sections json_loads (PyDict d) = Inr []"
    by (simp add: split_sections_def load_payload_def get_requirement_def split_document_empty)
next
  assume "json_loads js = Some (PyDict d) \<and> map_of d ''REQUIREMENT'' = None"
  then show "split_sections json_loads (PyStr js) = Inr []"
    by (simp add: split_sections_def load_payload_def get_requirement_def split_document_empty)
qed

theorem split_sections_invalid_payload_witness:
  "((\<exists>e. split_sections (\<lambda>s. if s = ''{}'' then Some (PyDict []) else None) (PyStr ''{'') = Inl e
        \<and> invalid_payload e)
      \<longleftrightarrow> \<not> json_object_or_mapping (\<lambda>s. if s = ''{}'' then Some (PyDict []) else None) (PyStr ''{''))
   \<and> \<not> json_object_or_mapping (\<lambda>s. if s = ''{}'' then Some (PyDict []) else None) (PyStr ''{'')
   \<and> map_of ([] :: (string \<times> pyvalue) list) ''REQUIREMENT'' = None
   \<and> split_sections (\<lambda>s. if s = ''{}'' then Some (PyDict []) else None) (PyDict []) = Inr []
   \<and> (\<lambda>s. if s = ''{}'' then Some (PyDict []) else None) ''{}'' = Some (PyDict [])
   \<and> split_sections (\<lambda>s. if s = ''{}'' then Some (PyDict []) else None) (PyStr ''{}'') = Inr []"
proof -
  let ?jl = "\<lambda>s. if s = ''{}'' then Some (PyDict []) else None"
  have 1: "\<not> json_object_or_mapping ?jl (PyStr ''{'')"
    by (simp add: json_object_or_mapping_def)
  have 2: "map_of ([] :: (string \<times> pyvalue) list) ''REQUIREMENT'' = None" by simp
  have 3: "?jl ''{}'' = Some (PyDict [])" by simp
  from split_sections_invalid_payload [of ?jl "PyStr ''{''" "[]" "''{}''"] 1 2 3 show ?thesis by blast
qed

section \<open>Lines between fences\<close>

text \<open>
  C8 as stated fails: the lines of a code block are not kept character for character.
  Every line is trimmed before the parser looks at its state, and a blank line is skipped:
  the block \<^verbatim>\<open>"```\n  x = 1\n\n```"\<close> holds the one line \<^verbatim>\<open>"x = 1"\<close>.
\<close>

theorem code_block_not_verbatim:
  "generate_doc ''```\<newline>  x = 1\<newline>\<newline>```'' ''T'' = Inr [Title ''T'', CodeBlock [''x = 1'']]
   \<and> generate_doc ''```\<newline>  x = 1\<newline>\<newline>```'' ''T'' \<noteq> Inr [Title ''T'', CodeBlock [''  x = 1'', '''']]"
  by code_simp

text \<open>
  C8, amended.  From a state outside a code block, an opening fence line, then lines none
  of which starts (once trimmed) with a fence, then a closing fence line: the document
  gains exactly one block, the code block of the trimmed non-blank lines in order (behind
  what the code buffer held), whatever other pattern these lines match; the buffer is
  empty again and nothing else of the state changes, so no paragraph comes of them.
\<close>

theorem fenced_lines_trimmed:
  assumes "\<not> in_code_block s" "startswith (strip opening) ''```''" "startswith (strip closing) ''```''"
    "list_all (\<lambda>l. \<not> startswith (strip l) ''```'') body"
  shows "process s (opening # body @ [closing]) =
     Inr (s\<lparr> doc := doc s @ [CodeBlock (code_block_lines s @ filter (\<lambda>l. l \<noteq> []) (map strip body))],
             code_block_lines := [] \<rparr>)"
proof -
  have 1: "step s opening = Inr (s\<lparr> in_code_block := True \<rparr>)"
    using assms(1,2) by (auto simp: step_def Let_def)
  have 2: "process (s\<lparr> in_code_block := True \<rparr>) body =
     Inr (s\<lparr> in_code_block := True,
             code_block_lines := code_block_lines s @ filter (\<lambda>l. l \<noteq> []) (map strip body) \<rparr>)"
    using code_lines [of "s\<lparr> in_code_block := True \<rparr>" body] assms(4) by simp
  have 3: "step (s\<lparr> in_code_block := True,
             code_block_lines := code_block_lines s @ filter (\<lambda>l. l \<noteq> []) (map strip body) \<rparr>) closing =
     Inr (s\<lparr> doc := doc s @ [CodeBlock (code_block_lines s @ filter (\<lambda>l. l \<noteq> []) (map strip body))],
             code_block_lines := [] \<rparr>)"
    using assms(1,3) by (auto simp: step_def Let_def)
  show ?thesis by (simp add: 1 process_append 2 3)
qed

theorem fenced_lines_trimmed_witness:
  "\<not> in_code_block (init ''T'') \<and> startswith (strip ''```abap'') ''```''
   \<and> startswith (strip '' ```'') ''```''
   \<and> list_all (\<lambda>l. \<not> startswith (strip l) ''```'') [''  x = 1'', '''', ''1. Title'', ''|a|b|'']
   \<and> process (init ''T'') (''```abap'' # [''  x = 1'', '''', ''1. Title'', ''|a|b|''] @ ['' ```'']) =
       Inr ((init ''T'')\<lparr> doc := doc (init ''T'') @
              [CodeBlock (code_block_lines (init ''T'') @
                 filter (\<lambda>l. l \<noteq> []) (map strip [''  x = 1'', '''', ''1. Title'', ''|a|b|'']))],
             code_block_lines := [] \<rparr>)"
proof -
  have 1: "\<not> in_code_block (init ''T'')" by (simp add: init_def)
  have 2: "startswith (strip ''```abap'') ''```''" by code_simp
  have 3: "startswith (strip '' ```'') ''```''" by code_simp
  have 4: "list_all (\<lambda>l. \<not> startswith (strip l) ''```'') [''  x = 1'', '''', ''1. Title'', ''|a|b|'']"
    by code_simp
  from fenced_lines_trimmed [OF 1 2 3 4] 1 2 3 4 show ?thesis by blast
qed

section \<open>Rows of a table\<close>





section \<open>Content before the first heading\<close>

text \<open>
  Where content lines are read outside a code block and outside a table, they are kept.
  While no heading line was read (the current section is empty) and the parser is in
  neither state, content lines \<open>pre\<close> are kept as pending content: whatever lines follow,
  the saved document holds one paragraph for each of them (trimmed), in order and behind
  the paragraphs of the content pending before, and no heading was added between the
  state before \<open>pre\<close> and these paragraphs; at the end of the input they are the last
  blocks.  The loop of \<open>split_sections\<close>, while it has no current section, drops a part
  that is no header.
\<close>

lemma pre_heading_content_paragraphs:
  assumes "current_section s = []" "\<not> in_code_block s" "\<not> in_table s"
    "list_all content_line pre" "process s (pre @ rest) = Inr s'"
  shows "(\<exists>a b. doc (flush_section s') =
            doc s @ a @ map Paragraph (current_content s @ map strip pre) @ b \<and>
          (\<forall>h. Heading h \<notin> set a) \<and> (rest = [] \<longrightarrow> a = [] \<and> b = []))
         \<and> (\<not> startswith (strip part) ''SECTION:'' \<longrightarrow>
              split_loop (part # sections) None result = split_loop sections None result)"
proof -
  let ?s = "s\<lparr> current_content := current_content s @ map strip pre \<rparr>"
  have 1: "process ?s rest = Inr s'"
    using assms by (simp add: process_append content_lines_pending)
  have "\<exists>a b. doc (flush_section s') =
            doc s @ a @ map Paragraph (current_content s @ map strip pre) @ b \<and>
          (\<forall>h. Heading h \<notin> set a) \<and> (rest = [] \<longrightarrow> a = [] \<and> b = [])"
  proof (cases "rest = []")
    case True
    then have "s' = ?s" using 1 by simp
    then show ?thesis using True assms(1) by (simp add: doc_flush_section)
  next
    case False
    from pending_content_emitted [of ?s rest s'] assms(1) 1 show ?thesis using False by simp
  qed
  then show ?thesis using split_loop_discards by blast
qed


lemma pre_heading_content_paragraphs_example:
  "current_section (init ''T'') = [] \<and> \<not> in_code_block (init ''T'') \<and> \<not> in_table (init ''T'')
   \<and> list_all content_line [''intro'', '' more '']
   \<and> process (init ''T'') ([''intro'', '' more ''] @ [''1. A'', ''b'']) =
       Inr \<lparr> doc = [Title ''T'', Paragraph ''intro'', Paragraph ''more''],
             current_section = ''1. A'', current_content = [''b''],
             seen_sections = {}, in_code_block = False, code_block_lines = [],
             in_table = False, table_lines = [], known_main_sections = {''1''} \<rparr>
   \<and> (\<exists>a b. doc (flush_section \<lparr> doc = [Title ''T'', Paragraph ''intro'', Paragraph ''more''],
             current_section = ''1. A'', current_content = [''b''],
             seen_sections = {}, in_code_block = False, code_block_lines = [],
             in_table = False, table_lines = [], known_main_sections = {''1''} \<rparr>) =
            doc (init ''T'') @ a @
              map Paragraph (current_content (init ''T'') @ map strip [''intro'', '' more '']) @ b \<and>
          (\<forall>h. Heading h \<notin> set a) \<and> ([''1. A'', ''b''] = [] \<longrightarrow> a = [] \<and> b = []))
   \<and> \<not> startswith (strip ''intro'') ''SECTION:''
   \<and> split_loop (''intro'' # [''SECTION: 1. A'', ''x'']) None [] =
       split_loop [''SECTION: 1. A'', ''x''] None []"
proof -
  let ?s' = "\<lparr> doc = [Title ''T'', Paragraph ''intro'', Paragraph ''more''],
             current_section = ''1. A'', current_content = [''b''],
             seen_sections = {}, in_code_block = False, code_block_lines = [],
             in_table = False, table_lines = [], known_main_sections = {''1''} \<rparr>"
  have 1: "current_section (init ''T'') = []" by (simp add: init_def)
  have 2: "\<not> in_code_block (init ''T'')" by (simp add: init_def)
  have 3: "\<not> in_table (init ''T'')" by (simp add: init_def)
  have 4: "list_all content_line [''intro'', '' more '']" by code_simp
  have 5: "process (init ''T'') ([''intro'', '' more ''] @ [''1. A'', ''b'']) = Inr ?s'"
    by code_simp
  have 6: "\<not> startswith (strip ''intro'') ''SECTION:''" by code_simp
  from pre_heading_content_paragraphs
    [OF 1 2 3 4 5, where part = "''intro''" and sections = "[''SECTION: 1. A'', ''x'']"
       and result = "[]"]
    1 2 3 4 5 6 show ?thesis by blast
qed

text \<open>
  C10.  A content line that directly follows the rows of a table is discarded, before any
  heading as well as after one: the branch that commits the table ends with
  \<^verbatim>\<open>continue\<close>, so the line that closes the table never reaches the pending content.  On
  \<^verbatim>\<open>"|a|\n|-|\nhello"\<close> the document gets the table and no paragraph for \<^verbatim>\<open>hello\<close>;
  \<^verbatim>\<open>"hello"\<close> alone yields its paragraph.
\<close>

theorem content_after_table_dropped:
  "generate_doc ''|a|\<newline>|-|\<newline>hello'' title = Inr [Title title, Table [[''a'']]]
   \<and> generate_doc ''hello'' title = Inr [Title title, Paragraph ''hello'']"
  by code_simp

end
